theory Spec2Isabelle
  imports Main "HOL-Library.Word"
begin

section \<open>Pollable concurrency primitives (pistis-concurrent)\<close>

text \<open>
  A shallow embedding of the pollable queue, condition variable, read/write toggle and
  epoll set of the library. Every class is a record of its data members (the trailing
  underscore of the member names is replaced by a prefix naming the class), every member
  function is a function from the object's state to a result and the new state. Kernel
  objects the classes own (the counter of an eventfd, the interest list of an epoll
  instance) are written into the state where the code depends on them.
\<close>

subsection \<open>Results of a call\<close>

text \<open>The exceptions the library throws (pistis::exceptions).\<close>

datatype error = IllegalValueError | NoSuchItem | ItemExistsError | SystemError

text \<open>
  A call returns a value, throws, or suspends the calling thread without returning
  (a read of an eventfd whose counter is zero, a wait nobody ends).
\<close>

datatype 'a outcome = Returns 'a | Throws error | Blocks

subsection \<open>ReadWriteToggle\<close>

datatype State = READ_ONLY | WRITE_ONLY | READ_WRITE

text \<open>
  The toggle's members \<open>fd_\<close> and \<open>state_\<close>, and the counter of the eventfd
  it owns (\<open>rwt_value\<close>): a write adds to the counter, a read returns it and resets
  it to zero (the eventfd is created without the semaphore flag).
\<close>

record ReadWriteToggle =
  rwt_fd :: int
  rwt_state :: State
  rwt_value :: nat

text \<open>\<open>STATE_VALUES[] = { (uint64_t)-2, 0, 1 }\<close>, indexed by the state.\<close>

fun STATE_VALUES :: "State \<Rightarrow> nat" where
  "STATE_VALUES READ_ONLY = 18446744073709551614"
| "STATE_VALUES WRITE_ONLY = 0"
| "STATE_VALUES READ_WRITE = 1"

definition readValue :: "ReadWriteToggle \<Rightarrow> ReadWriteToggle" where
  "readValue t = t\<lparr>rwt_value := 0\<rparr>"

definition writeValue :: "nat \<Rightarrow> ReadWriteToggle \<Rightarrow> ReadWriteToggle" where
  "writeValue v t = t\<lparr>rwt_value := rwt_value t + v\<rparr>"

definition changeState :: "State \<Rightarrow> ReadWriteToggle \<Rightarrow> ReadWriteToggle" where
  "changeState newState t =
     (let oldValue = STATE_VALUES (rwt_state t);
          newValue = STATE_VALUES newState;
          t1 = (if newValue > oldValue then writeValue (newValue - oldValue) t
                else if newValue < oldValue then
                  (let t0 = readValue t
                   in if newValue \<noteq> 0 then writeValue newValue t0 else t0)
                else t)
      in t1\<lparr>rwt_state := newState\<rparr>)"

definition setState :: "State \<Rightarrow> ReadWriteToggle \<Rightarrow> ReadWriteToggle" where
  "setState newState t = (if newState \<noteq> rwt_state t then changeState newState t else t)"

text \<open>
  The object the constructor builds around a descriptor \<open>fd\<close>: state READ_WRITE, the
  eventfd created with \<open>STATE_VALUES[READ_WRITE]\<close> as its initial counter.
\<close>

definition ReadWriteToggle_init :: "int \<Rightarrow> ReadWriteToggle" where
  "ReadWriteToggle_init fd =
     \<lparr>rwt_fd = fd, rwt_state = READ_WRITE, rwt_value = STATE_VALUES READ_WRITE\<rparr>"

subsection \<open>Queue\<close>

datatype QueueEventType =
  EMPTY | NOT_EMPTY | FULL | NOT_FULL | HIGH_WATER_MARK | LOW_WATER_MARK

text \<open>
  The queue's members. \<open>size_t\<close> is \<open>nat\<close>: the only arithmetic on sizes is
  \<open>q_.size() + 1\<close> right after a pop and \<open>q_.size() - 1\<close> right after a push,
  neither of which can wrap. The six condition variables are each notified with
  \<open>notifyAll\<close> and nothing else; \<open>q_notified\<close> records these calls in order, by
  the event whose condition variable (\<open>selectCv_\<close>) was notified.
\<close>

record 'a Queue =
  q_maxSize :: nat
  q_lowWaterMark :: nat
  q_highWaterMark :: nat
  q_q :: "'a list"
  q_queueState :: ReadWriteToggle
  q_highWaterCrossed :: bool
  q_notified :: "QueueEventType list"

definition MAX_QUEUE_SIZE :: nat where
  "MAX_QUEUE_SIZE = 18446744073709551615"

definition notifyAllCv :: "QueueEventType \<Rightarrow> 'a Queue \<Rightarrow> 'a Queue" where
  "notifyAllCv e q = q\<lparr>q_notified := q_notified q @ [e]\<rparr>"

definition setQueueState :: "State \<Rightarrow> 'a Queue \<Rightarrow> 'a Queue" where
  "setQueueState s q = q\<lparr>q_queueState := setState s (q_queueState q)\<rparr>"

text \<open>
  \<open>issueNotifications_(oldSize, newSize)\<close> is six \<open>if\<close> statements in sequence,
  each reading the members as the statements before it left them. Each statement is a
  function here, named by the condition variable it notifies.
\<close>

definition ifNotEmpty :: "nat \<Rightarrow> nat \<Rightarrow> 'a Queue \<Rightarrow> 'a Queue" where
  "ifNotEmpty oldSize newSize q =
     (if oldSize = 0 \<and> newSize \<noteq> 0
      then setQueueState READ_WRITE (notifyAllCv NOT_EMPTY q) else q)"

definition ifEmpty :: "nat \<Rightarrow> nat \<Rightarrow> 'a Queue \<Rightarrow> 'a Queue" where
  "ifEmpty oldSize newSize q =
     (if oldSize \<noteq> 0 \<and> newSize = 0
      then setQueueState WRITE_ONLY (notifyAllCv EMPTY q) else q)"

definition ifNotFull :: "nat \<Rightarrow> nat \<Rightarrow> 'a Queue \<Rightarrow> 'a Queue" where
  "ifNotFull oldSize newSize q =
     (if oldSize \<ge> q_maxSize q \<and> newSize < q_maxSize q
      then setQueueState READ_WRITE (notifyAllCv NOT_FULL q) else q)"

definition ifFull :: "nat \<Rightarrow> nat \<Rightarrow> 'a Queue \<Rightarrow> 'a Queue" where
  "ifFull oldSize newSize q =
     (if oldSize < q_maxSize q \<and> newSize \<ge> q_maxSize q
      then setQueueState READ_ONLY (notifyAllCv FULL q) else q)"

definition ifHighWaterMark :: "nat \<Rightarrow> nat \<Rightarrow> 'a Queue \<Rightarrow> 'a Queue" where
  "ifHighWaterMark oldSize newSize q =
     (if oldSize \<le> q_highWaterMark q \<and> newSize > q_highWaterMark q \<and>
         \<not> q_highWaterCrossed q
      then (notifyAllCv HIGH_WATER_MARK q)\<lparr>q_highWaterCrossed := True\<rparr> else q)"

definition ifLowWaterMark :: "nat \<Rightarrow> nat \<Rightarrow> 'a Queue \<Rightarrow> 'a Queue" where
  "ifLowWaterMark oldSize newSize q =
     (if oldSize > q_lowWaterMark q \<and> newSize \<le> q_lowWaterMark q \<and>
         q_highWaterCrossed q
      then (notifyAllCv LOW_WATER_MARK q)\<lparr>q_highWaterCrossed := False\<rparr> else q)"

definition issueNotifications :: "nat \<Rightarrow> nat \<Rightarrow> 'a Queue \<Rightarrow> 'a Queue" where
  "issueNotifications oldSize newSize q =
     ifLowWaterMark oldSize newSize
       (ifHighWaterMark oldSize newSize
         (ifFull oldSize newSize
           (ifNotFull oldSize newSize
             (ifEmpty oldSize newSize
               (ifNotEmpty oldSize newSize q)))))"

text \<open>
  The three-argument constructor. \<open>tfd\<close> is the descriptor of the member toggle, which
  is default-constructed (READ_WRITE) before the constructor's body runs.
\<close>

definition Queue_new :: "int \<Rightarrow> nat \<Rightarrow> nat \<Rightarrow> nat \<Rightarrow> error + 'a Queue" where
  "Queue_new tfd maxSize lowWaterMark highWaterMark =
     (if highWaterMark > maxSize then Inl IllegalValueError
      else if lowWaterMark > highWaterMark then Inl IllegalValueError
      else Inr (setQueueState WRITE_ONLY
             \<lparr>q_maxSize = maxSize, q_lowWaterMark = lowWaterMark,
              q_highWaterMark = highWaterMark, q_q = [],
              q_queueState = ReadWriteToggle_init tfd,
              q_highWaterCrossed = False, q_notified = []\<rparr>))"

text \<open>\<open>Queue(size_t maxSize)\<close> delegates with both marks at \<open>maxSize\<close>;
  \<open>Queue()\<close> delegates with \<open>MAX_QUEUE_SIZE\<close>.\<close>

definition Queue_new_maxSize :: "int \<Rightarrow> nat \<Rightarrow> error + 'a Queue" where
  "Queue_new_maxSize tfd maxSize = Queue_new tfd maxSize maxSize maxSize"

definition Queue_new_default :: "int \<Rightarrow> error + 'a Queue" where
  "Queue_new_default tfd = Queue_new_maxSize tfd MAX_QUEUE_SIZE"

definition size_q :: "'a Queue \<Rightarrow> nat" where
  "size_q q = length (q_q q)"

definition setLowWaterMark :: "nat \<Rightarrow> 'a Queue \<Rightarrow> unit outcome \<times> 'a Queue" where
  "setLowWaterMark v q =
     (if v > q_highWaterMark q then (Throws IllegalValueError, q)
      else (Returns (), q\<lparr>q_lowWaterMark := v\<rparr>))"

definition setHighWaterMark :: "nat \<Rightarrow> 'a Queue \<Rightarrow> unit outcome \<times> 'a Queue" where
  "setHighWaterMark v q =
     (if v > q_maxSize q then (Throws IllegalValueError, q)
      else if v < q_lowWaterMark q then (Throws IllegalValueError, q)
      else (Returns (), q\<lparr>q_highWaterMark := v\<rparr>))"

text \<open>
  The blocking operations are modelled for one thread acting on the queue: a wait for a
  state that only another thread could bring about does not end before its timeout.
  So \<open>get()\<close> on an empty queue blocks, \<open>get(result, timeout)\<close> with a non-negative
  timeout returns false (here \<open>None\<close>) once the deadline has passed, and likewise for
  \<open>put\<close> on a full queue.
\<close>

definition get :: "'a Queue \<Rightarrow> 'a outcome \<times> 'a Queue" where
  "get q =
     (case q_q q of
        [] \<Rightarrow> (Blocks, q)
      | item # rest \<Rightarrow>
          (Returns item,
           issueNotifications (length rest + 1) (length rest) (q\<lparr>q_q := rest\<rparr>)))"

definition get_timeout :: "int \<Rightarrow> 'a Queue \<Rightarrow> 'a option outcome \<times> 'a Queue" where
  "get_timeout timeout q =
     (if timeout < 0 then
        (case get q of
           (Returns item, q') \<Rightarrow> (Returns (Some item), q')
         | (Throws e, q') \<Rightarrow> (Throws e, q')
         | (Blocks, q') \<Rightarrow> (Blocks, q'))
      else
        (case q_q q of
           [] \<Rightarrow> (Returns None, q)
         | item # rest \<Rightarrow>
             (Returns (Some item),
              issueNotifications (length rest + 1) (length rest) (q\<lparr>q_q := rest\<rparr>))))"

definition getAll :: "'a Queue \<Rightarrow> 'a list outcome \<times> 'a Queue" where
  "getAll q =
     (let result = q_q q
      in (Returns result, issueNotifications (length result) 0 (q\<lparr>q_q := []\<rparr>)))"

definition executePut :: "int \<Rightarrow> 'a \<Rightarrow> 'a Queue \<Rightarrow> bool outcome \<times> 'a Queue" where
  "executePut timeout item q =
     (if length (q_q q) \<ge> q_maxSize q then
        (if timeout < 0 then (Blocks, q) else (Returns False, q))
      else
        (let q' = q\<lparr>q_q := q_q q @ [item]\<rparr>
         in (Returns True, issueNotifications (length (q_q q') - 1) (length (q_q q')) q')))"

definition put :: "'a \<Rightarrow> int \<Rightarrow> 'a Queue \<Rightarrow> bool outcome \<times> 'a Queue" where
  "put item timeout q = executePut timeout item q"

definition clear :: "'a Queue \<Rightarrow> unit outcome \<times> 'a Queue" where
  "clear q =
     (let oldSize = length (q_q q)
      in (Returns (), issueNotifications oldSize 0 (q\<lparr>q_q := []\<rparr>)))"

text \<open>
  The move constructor. The new queue's members are initialised from \<open>other\<close>; its
  condition variables and its toggle (descriptor \<open>tfd\<close>) are default-constructed and
  the body does not touch them. A moved-from \<open>std::deque\<close> is empty.
  The result is the new queue and what is left of \<open>other\<close>.
\<close>

definition Queue_move_construct :: "int \<Rightarrow> 'a Queue \<Rightarrow> 'a Queue \<times> 'a Queue" where
  "Queue_move_construct tfd other =
     (let this = \<lparr>q_maxSize = q_maxSize other, q_lowWaterMark = q_lowWaterMark other,
                  q_highWaterMark = q_highWaterMark other, q_q = q_q other,
                  q_queueState = ReadWriteToggle_init tfd,
                  q_highWaterCrossed = q_highWaterCrossed other, q_notified = []\<rparr>;
          other1 = other\<lparr>q_q := []\<rparr>;
          other2 = other1\<lparr>q_highWaterCrossed := False\<rparr>;
          other3 = setQueueState WRITE_ONLY other2
      in (this, other3))"

text \<open>
  Move assignment between two distinct queues (\<open>this != &other\<close>; on self-assignment
  the operator does nothing). The result is the assigned queue and what is left of
  \<open>other\<close>.
\<close>

definition Queue_move_assign :: "'a Queue \<Rightarrow> 'a Queue \<Rightarrow> 'a Queue \<times> 'a Queue" where
  "Queue_move_assign this other =
     (let this1 = this\<lparr>q_maxSize := q_maxSize other,
                       q_lowWaterMark := q_lowWaterMark other,
                       q_highWaterMark := q_highWaterMark other,
                       q_highWaterCrossed := q_highWaterCrossed other\<rparr>;
          other1 = other\<lparr>q_highWaterCrossed := False\<rparr>;
          this2 = this1\<lparr>q_q := q_q other1\<rparr>;
          other2 = other1\<lparr>q_q := []\<rparr>;
          other3 = setQueueState WRITE_ONLY other2;
          this3 = (if length (q_q this2) = 0 then setQueueState WRITE_ONLY this2
                   else if length (q_q this2) < q_maxSize this2
                   then setQueueState READ_WRITE this2
                   else setQueueState READ_ONLY this2)
      in (this3, other3))"

text \<open>The state of the toggle that matches a size, as the move assignment computes it.\<close>

definition stateForSize :: "nat \<Rightarrow> nat \<Rightarrow> State" where
  "stateForSize maxSize n =
     (if n = 0 then WRITE_ONLY else if n < maxSize then READ_WRITE else READ_ONLY)"

subsection \<open>Sequences of queue operations\<close>

datatype 'a QueueOp =
  Put 'a int | Get | GetTimeout int | GetAll | Clear
  | SetLowWaterMark nat | SetHighWaterMark nat

fun apply_op :: "'a QueueOp \<Rightarrow> 'a Queue \<Rightarrow> 'a Queue" where
  "apply_op (Put item timeout) q = snd (put item timeout q)"
| "apply_op Get q = snd (get q)"
| "apply_op (GetTimeout timeout) q = snd (get_timeout timeout q)"
| "apply_op GetAll q = snd (getAll q)"
| "apply_op Clear q = snd (clear q)"
| "apply_op (SetLowWaterMark v) q = snd (setLowWaterMark v q)"
| "apply_op (SetHighWaterMark v) q = snd (setHighWaterMark v q)"

definition run :: "'a QueueOp list \<Rightarrow> 'a Queue \<Rightarrow> 'a Queue" where
  "run ops q = fold apply_op ops q"

text \<open>The mutating operations of the queue: those that add or remove items.\<close>

fun is_mutation :: "'a QueueOp \<Rightarrow> bool" where
  "is_mutation (SetLowWaterMark v) = False"
| "is_mutation (SetHighWaterMark v) = False"
| "is_mutation other = True"

text \<open>The notifications one operation issues: what it appends to the record.\<close>

definition fired :: "'a QueueOp \<Rightarrow> 'a Queue \<Rightarrow> QueueEventType list" where
  "fired op q = drop (length (q_notified q)) (q_notified (apply_op op q))"

subsection \<open>Queue::Guard and Condition::Guard\<close>

text \<open>
  A guard holds a pointer to the object it observes (\<open>None\<close> is \<open>nullptr\<close>, \<open>Some a\<close>
  the object at address \<open>a\<close>) and the descriptor \<open>observe\<close> returned. The move
  constructors return the new guard and what is left of \<open>other\<close>.
\<close>

record QueueGuard =
  qg_q :: "nat option"
  qg_t :: QueueEventType
  qg_fd :: int

definition QueueGuard_move :: "QueueGuard \<Rightarrow> QueueGuard \<times> QueueGuard" where
  "QueueGuard_move other =
     (let this = \<lparr>qg_q = qg_q other, qg_t = qg_t other, qg_fd = qg_fd other\<rparr>;
          other1 = other\<lparr>qg_q := None\<rparr>;
          this1 = this\<lparr>qg_fd := -1\<rparr>
      in (this1, other1))"

definition QueueGuard_active :: "QueueGuard \<Rightarrow> bool" where
  "QueueGuard_active g = (qg_q g \<noteq> None)"

definition QueueGuard_fd :: "QueueGuard \<Rightarrow> int" where
  "QueueGuard_fd g = qg_fd g"

record ConditionGuard =
  cg_c :: "nat option"
  cg_fd :: int

definition ConditionGuard_move :: "ConditionGuard \<Rightarrow> ConditionGuard \<times> ConditionGuard" where
  "ConditionGuard_move other =
     (let this = \<lparr>cg_c = cg_c other, cg_fd = cg_fd other\<rparr>;
          other1 = other\<lparr>cg_c := None\<rparr>;
          other2 = other1\<lparr>cg_fd := -1\<rparr>
      in (this, other2))"

definition ConditionGuard_active :: "ConditionGuard \<Rightarrow> bool" where
  "ConditionGuard_active g = (cg_c g \<noteq> None)"

definition ConditionGuard_fd :: "ConditionGuard \<Rightarrow> int" where
  "ConditionGuard_fd g = cg_fd g"

subsection \<open>Condition\<close>

text \<open>
  A handle is a \<open>shared_ptr<Semaphore>\<close>; it is named by the descriptor of the
  semaphore's eventfd, which no two live semaphores share. \<open>cv_sems\<close> is the counter of
  the eventfd of each semaphore: \<open>up\<close> adds one, \<open>down\<close> takes one and blocks while
  the counter is zero, and the descriptor is readable while the counter is positive.
  \<open>observers_\<close> maps the descriptor of each observer's semaphore to that semaphore; with
  handles named by their descriptors the table is the set of its keys.
\<close>

record Condition =
  cv_queue :: "int list"
  cv_observers :: "int set"
  cv_sems :: "int \<Rightarrow> nat"

definition Condition_new :: Condition where
  "Condition_new = \<lparr>cv_queue = [], cv_observers = {}, cv_sems = (\<lambda>s. 0)\<rparr>"

text \<open>The largest value the counter of an eventfd holds; a write that would exceed it blocks.\<close>

definition EVENTFD_MAX :: nat where
  "EVENTFD_MAX = 18446744073709551614"

definition readable :: "Condition \<Rightarrow> int \<Rightarrow> bool" where
  "readable c s = (cv_sems c s > 0)"

text \<open>
  \<open>observe()\<close>. \<open>s\<close> is the descriptor \<open>eventfd\<close> returns to the new semaphore's
  constructor, negative when the call fails.
\<close>

definition observe :: "int \<Rightarrow> Condition \<Rightarrow> int outcome \<times> Condition" where
  "observe s c =
     (if s < 0 then (Throws SystemError, c)
      else
        (let c1 = c\<lparr>cv_sems := (cv_sems c)(s := 0)\<rparr>;
             c2 = c1\<lparr>cv_queue := cv_queue c1 @ [s]\<rparr>;
             c3 = c2\<lparr>cv_observers := insert s (cv_observers c2)\<rparr>
         in (Returns s, c3)))"

text \<open>
  \<open>lookup_\<close> throws for a descriptor that is not a key of \<open>observers_\<close>.
  \<open>ack\<close> releases the mutex around \<open>down\<close>; it is one step here, taken when
  \<open>down\<close> returns, and it blocks while the counter is zero.
\<close>

definition lookup :: "int \<Rightarrow> Condition \<Rightarrow> error + int" where
  "lookup fd c = (if fd \<in> cv_observers c then Inr fd else Inl NoSuchItem)"

definition ack :: "int \<Rightarrow> Condition \<Rightarrow> unit outcome \<times> Condition" where
  "ack fd c =
     (case lookup fd c of
        Inl e \<Rightarrow> (Throws e, c)
      | Inr s \<Rightarrow>
          if cv_sems c s = 0 then (Blocks, c)
          else
            (let c1 = c\<lparr>cv_sems := (cv_sems c)(s := cv_sems c s - 1)\<rparr>
             in (Returns (), c1\<lparr>cv_queue := cv_queue c1 @ [s]\<rparr>)))"

definition stopObserving :: "int \<Rightarrow> Condition \<Rightarrow> unit outcome \<times> Condition" where
  "stopObserving fd c =
     (case lookup fd c of
        Inl e \<Rightarrow> (Throws e, c)
      | Inr s \<Rightarrow> (Returns (), c\<lparr>cv_observers := cv_observers c - {fd}\<rparr>))"

definition notifyOne :: "Condition \<Rightarrow> unit outcome \<times> Condition" where
  "notifyOne c =
     (if cv_queue c \<noteq> [] then
        (let s = last (cv_queue c)
         in if cv_sems c s + 1 > EVENTFD_MAX then (Blocks, c)
            else (Returns (),
                  c\<lparr>cv_sems := (cv_sems c)(s := cv_sems c s + 1),
                    cv_queue := butlast (cv_queue c)\<rparr>))
      else (Returns (), c))"

function notifyAll :: "Condition \<Rightarrow> unit outcome \<times> Condition" where
  "notifyAll c =
     (if cv_queue c \<noteq> [] then
        (let s = last (cv_queue c)
         in if cv_sems c s + 1 > EVENTFD_MAX then (Blocks, c)
            else notifyAll
                  (c\<lparr>cv_sems := (cv_sems c)(s := cv_sems c s + 1),
                    cv_queue := butlast (cv_queue c)\<rparr>))
      else (Returns (), c))"
  by pat_completeness auto
termination
  by (relation "measure (\<lambda>c. length (cv_queue c))") auto

declare notifyAll.simps [simp del]

text \<open>
  \<open>wait(timeout)\<close> and \<open>wait()\<close> create a semaphore and push it under the mutex,
  release the mutex and then call \<open>down\<close> on the semaphore. Other threads act on the
  condition between the two halves, so each half is a function: \<open>wait_enqueue\<close> with
  the descriptor \<open>s\<close> of the new semaphore, and \<open>wait_down\<close>, which is
  \<open>Semaphore::down(timeout)\<close> at the moment it returns: with a negative timeout it is
  \<open>down()\<close>, otherwise it reads the counter if the descriptor became readable within
  the timeout and returns false if it did not.
\<close>

definition wait_enqueue :: "int \<Rightarrow> Condition \<Rightarrow> unit outcome \<times> Condition" where
  "wait_enqueue s c =
     (if s < 0 then (Throws SystemError, c)
      else
        (let c1 = c\<lparr>cv_sems := (cv_sems c)(s := 0)\<rparr>
         in (Returns (), c1\<lparr>cv_queue := cv_queue c1 @ [s]\<rparr>)))"

definition wait_down :: "int \<Rightarrow> int \<Rightarrow> Condition \<Rightarrow> bool outcome \<times> Condition" where
  "wait_down timeout s c =
     (if cv_sems c s > 0
      then (Returns True, c\<lparr>cv_sems := (cv_sems c)(s := cv_sems c s - 1)\<rparr>)
      else if timeout < 0 then (Blocks, c)
      else (Returns False, c))"

text \<open>\<open>wait(timeout)\<close> when no other thread acts between its two halves.\<close>

definition Condition_wait :: "int \<Rightarrow> int \<Rightarrow> Condition \<Rightarrow> bool outcome \<times> Condition" where
  "Condition_wait timeout s c =
     (case wait_enqueue s c of
        (Returns u, c1) \<Rightarrow> wait_down timeout s c1
      | (Throws e, c1) \<Rightarrow> (Throws e, c1)
      | (Blocks, c1) \<Rightarrow> (Blocks, c1))"

subsection \<open>Executions of a condition\<close>

datatype cv_op =
  Observe int | Ack int | StopObserving int | NotifyOne | NotifyAll
  | WaitEnqueue int | WaitDown int int

text \<open>
  The kernel gives a new semaphore a descriptor that no open eventfd has: not one the
  condition still holds in its queue or in its observer table.
\<close>

definition unused :: "int \<Rightarrow> Condition \<Rightarrow> bool" where
  "unused s c = (s \<notin> set (cv_queue c) \<and> s \<notin> cv_observers c)"

text \<open>
  One operation of some thread. There is no next state (\<open>None\<close>) when the kernel
  would have to hand out a descriptor in use, and when a notification blocks, which it
  does holding the mutex. A call that throws or that blocks without the mutex leaves
  the state as the function returns it.
\<close>

fun cv_step :: "cv_op \<Rightarrow> Condition \<Rightarrow> Condition option" where
  "cv_step (Observe s) c = (if unused s c then Some (snd (observe s c)) else None)"
| "cv_step (Ack fd) c = Some (snd (ack fd c))"
| "cv_step (StopObserving fd) c = Some (snd (stopObserving fd c))"
| "cv_step NotifyOne c =
     (case notifyOne c of (Blocks, c') \<Rightarrow> None | (r, c') \<Rightarrow> Some c')"
| "cv_step NotifyAll c =
     (case notifyAll c of (Blocks, c') \<Rightarrow> None | (r, c') \<Rightarrow> Some c')"
| "cv_step (WaitEnqueue s) c = (if unused s c then Some (snd (wait_enqueue s c)) else None)"
| "cv_step (WaitDown timeout s) c = Some (snd (wait_down timeout s c))"

fun cv_run :: "cv_op list \<Rightarrow> Condition \<Rightarrow> Condition option" where
  "cv_run [] c = Some c"
| "cv_run (op # ops) c = (case cv_step op c of None \<Rightarrow> None | Some c' \<Rightarrow> cv_run ops c')"

text \<open>The operations that create or wait on the semaphore \<open>s\<close>.\<close>

fun uses_handle :: "int \<Rightarrow> cv_op \<Rightarrow> bool" where
  "uses_handle s (Observe s') = (s' = s)"
| "uses_handle s (WaitEnqueue s') = (s' = s)"
| "uses_handle s (WaitDown timeout s') = (s' = s)"
| "uses_handle s other = False"

subsection \<open>Creating the toggle's eventfd\<close>

datatype OnExecMode = KEEP | CLOSE

text \<open>
  How control leaves a function that is declared to return a value: with a value, with
  an exception, or by reaching the closing brace with no \<open>return\<close> statement, after
  which the caller reads a value the function never produced (undefined behaviour).
\<close>

datatype 'a exit = ReturnsValue 'a | ThrowsError error | ReachesEnd

text \<open>
  \<open>createEventFd\<close> of ReadWriteToggle.cpp. \<open>fd\<close> is what \<open>::eventfd\<close> returned;
  \<open>onExec\<close> only selects the flags passed to it. The function body ends after the
  \<open>if\<close>.
\<close>

definition createEventFd :: "OnExecMode \<Rightarrow> int \<Rightarrow> int exit" where
  "createEventFd onExec fd = (if fd < 0 then ThrowsError SystemError else ReachesEnd)"

text \<open>\<open>createEventFd\<close> of Semaphore.cpp, which ends in \<open>return fd\<close>.\<close>

definition Semaphore_createEventFd :: "nat \<Rightarrow> OnExecMode \<Rightarrow> int \<Rightarrow> int exit" where
  "Semaphore_createEventFd initialValue onExec fd =
     (if fd < 0 then ThrowsError SystemError else ReturnsValue fd)"

text \<open>The toggle's constructor: \<open>fd_(createEventFd(onExec)), state_(READ_WRITE)\<close>.\<close>

definition ReadWriteToggle_new :: "OnExecMode \<Rightarrow> int \<Rightarrow> ReadWriteToggle exit" where
  "ReadWriteToggle_new onExec fd =
     (case createEventFd onExec fd of
        ReturnsValue v \<Rightarrow> ReturnsValue (ReadWriteToggle_init v)
      | ThrowsError e \<Rightarrow> ThrowsError e
      | ReachesEnd \<Rightarrow> ReachesEnd)"

subsection \<open>EpollSet\<close>

datatype EpollTrigger = LEVEL | EDGE

datatype EpollRepeat = REPEATING | ONE_SHOT

text \<open>\<open>EpollEventType\<close> is a bit mask in a \<open>uint32_t\<close>.\<close>

type_synonym EpollEventType = "32 word"

record EpollEvent =
  ev_fd :: int
  ev_events :: EpollEventType

text \<open>
  The members of the set, and the interest list of the epoll instance \<open>fd_\<close> names,
  which the kernel keeps: for each registered descriptor what it was registered for.
\<close>

record EpollSet =
  es_onExec :: OnExecMode
  es_fd :: int
  es_numFds :: "32 word"
  es_events :: "EpollEvent list"
  es_interest :: "int \<rightharpoonup> EpollEventType \<times> EpollTrigger \<times> EpollRepeat"

datatype errno = EEXIST | ENOENT | EBADF

text \<open>
  \<open>epoll_ctl\<close> on the interest list of the instance \<open>epfd\<close>: adding a registered
  descriptor fails with EEXIST, changing or deleting an unregistered one with ENOENT,
  and a negative descriptor is never valid.
\<close>

definition epoll_ctl_add ::
  "int \<Rightarrow> int \<Rightarrow> EpollEventType \<times> EpollTrigger \<times> EpollRepeat \<Rightarrow>
   (int \<rightharpoonup> EpollEventType \<times> EpollTrigger \<times> EpollRepeat) \<Rightarrow>
   errno + (int \<rightharpoonup> EpollEventType \<times> EpollTrigger \<times> EpollRepeat)" where
  "epoll_ctl_add epfd fd evt interest =
     (if epfd < 0 \<or> fd < 0 then Inl EBADF
      else if fd \<in> dom interest then Inl EEXIST
      else Inr (interest(fd \<mapsto> evt)))"

definition epoll_ctl_mod ::
  "int \<Rightarrow> int \<Rightarrow> EpollEventType \<times> EpollTrigger \<times> EpollRepeat \<Rightarrow>
   (int \<rightharpoonup> EpollEventType \<times> EpollTrigger \<times> EpollRepeat) \<Rightarrow>
   errno + (int \<rightharpoonup> EpollEventType \<times> EpollTrigger \<times> EpollRepeat)" where
  "epoll_ctl_mod epfd fd evt interest =
     (if epfd < 0 \<or> fd < 0 then Inl EBADF
      else if fd \<notin> dom interest then Inl ENOENT
      else Inr (interest(fd \<mapsto> evt)))"

definition epoll_ctl_del ::
  "int \<Rightarrow> int \<Rightarrow> (int \<rightharpoonup> EpollEventType \<times> EpollTrigger \<times> EpollRepeat) \<Rightarrow>
   errno + (int \<rightharpoonup> EpollEventType \<times> EpollTrigger \<times> EpollRepeat)" where
  "epoll_ctl_del epfd fd interest =
     (if epfd < 0 \<or> fd < 0 then Inl EBADF
      else if fd \<notin> dom interest then Inl ENOENT
      else Inr (interest(fd := None)))"

text \<open>\<open>createEpollFd\<close>; \<open>fd\<close> is what \<open>epoll_create1\<close> returned.\<close>

definition createEpollFd :: "OnExecMode \<Rightarrow> int \<Rightarrow> error + int" where
  "createEpollFd onExec fd = (if fd < 0 then Inl SystemError else Inr fd)"

definition EpollSet_new :: "OnExecMode \<Rightarrow> int \<Rightarrow> error + EpollSet" where
  "EpollSet_new onExec fd =
     (case createEpollFd onExec fd of
        Inl e \<Rightarrow> Inl e
      | Inr epfd \<Rightarrow>
          Inr \<lparr>es_onExec = onExec, es_fd = epfd, es_numFds = 0, es_events = [],
               es_interest = Map.empty\<rparr>)"

text \<open>\<open>addEvent_\<close> registers the descriptor or throws.\<close>

definition addEvent ::
  "int \<Rightarrow> EpollEventType \<Rightarrow> EpollTrigger \<Rightarrow> EpollRepeat \<Rightarrow> EpollSet \<Rightarrow>
   unit outcome \<times> EpollSet" where
  "addEvent eventFd events trigger repeat s =
     (case epoll_ctl_add (es_fd s) eventFd (events, trigger, repeat) (es_interest s) of
        Inl e \<Rightarrow> (if e = EEXIST then (Throws ItemExistsError, s) else (Throws SystemError, s))
      | Inr interest \<Rightarrow> (Returns (), s\<lparr>es_interest := interest\<rparr>))"

text \<open>The constructor that registers a first descriptor: \<open>numFds_(1)\<close>, then \<open>addEvent_\<close>.\<close>

definition EpollSet_new_fd ::
  "int \<Rightarrow> EpollEventType \<Rightarrow> EpollTrigger \<Rightarrow> EpollRepeat \<Rightarrow> OnExecMode \<Rightarrow> int \<Rightarrow>
   error + EpollSet" where
  "EpollSet_new_fd fd events trigger repeat onExec epfd =
     (case createEpollFd onExec epfd of
        Inl e \<Rightarrow> Inl e
      | Inr epfd' \<Rightarrow>
          (case addEvent fd events trigger repeat
                  \<lparr>es_onExec = onExec, es_fd = epfd', es_numFds = 1, es_events = [],
                   es_interest = Map.empty\<rparr> of
             (Returns u, s) \<Rightarrow> Inr s
           | (Throws e, s) \<Rightarrow> Inl e
           | (Blocks, s) \<Rightarrow> Inl SystemError))"

definition add ::
  "int \<Rightarrow> EpollEventType \<Rightarrow> EpollTrigger \<Rightarrow> EpollRepeat \<Rightarrow> EpollSet \<Rightarrow>
   unit outcome \<times> EpollSet" where
  "add fd events trigger repeat s =
     (case addEvent fd events trigger repeat s of
        (Returns u, s') \<Rightarrow> (Returns (), s'\<lparr>es_numFds := es_numFds s' + 1\<rparr>)
      | (Throws e, s') \<Rightarrow> (Throws e, s')
      | (Blocks, s') \<Rightarrow> (Blocks, s'))"

definition modify ::
  "int \<Rightarrow> EpollEventType \<Rightarrow> EpollTrigger \<Rightarrow> EpollRepeat \<Rightarrow> EpollSet \<Rightarrow>
   unit outcome \<times> EpollSet" where
  "modify fd events trigger repeat s =
     (case epoll_ctl_mod (es_fd s) fd (events, trigger, repeat) (es_interest s) of
        Inl e \<Rightarrow> (if e = ENOENT then (Throws NoSuchItem, s) else (Throws SystemError, s))
      | Inr interest \<Rightarrow> (Returns (), s\<lparr>es_interest := interest\<rparr>))"

definition remove :: "int \<Rightarrow> EpollSet \<Rightarrow> unit outcome \<times> EpollSet" where
  "remove fd s =
     (case epoll_ctl_del (es_fd s) fd (es_interest s) of
        Inr interest \<Rightarrow> (Returns (), s\<lparr>es_interest := interest, es_numFds := es_numFds s - 1\<rparr>)
      | Inl e \<Rightarrow> (if e \<noteq> ENOENT then (Throws SystemError, s) else (Throws NoSuchItem, s)))"

text \<open>
  \<open>clear()\<close> closes the epoll instance, with which its interest list goes, and creates
  a new one; \<open>fd\<close> is what \<open>epoll_create1\<close> returns for it. No other member is
  assigned.
\<close>

definition clear_set :: "int \<Rightarrow> EpollSet \<Rightarrow> unit outcome \<times> EpollSet" where
  "clear_set fd s =
     (let s1 = (if es_fd s > 0 then s\<lparr>es_interest := Map.empty\<rparr> else s)
      in case createEpollFd (es_onExec s1) fd of
           Inl e \<Rightarrow> (Throws e, s1)
         | Inr epfd \<Rightarrow> (Returns (), s1\<lparr>es_fd := epfd, es_interest := Map.empty\<rparr>))"

definition numTargets :: "EpollSet \<Rightarrow> 32 word" where
  "numTargets s = es_numFds s"

subsection \<open>Waiting for a queue event\<close>

text \<open>
  \<open>waitForInvariant_\<close> releases the queue's mutex around \<open>condition.wait(timeout)\<close>,
  so what a wait returns and what the queue then holds is decided by other threads. A
  \<open>wake\<close> is what they do during one call of \<open>condition.wait\<close>: after how many
  milliseconds the condition variable is notified (\<open>None\<close>: it is not), and the queue
  the waiting thread finds when it has the mutex again. A script is the list of wakes
  for the successive calls.
\<close>

record 'a wake =
  notifiedAfter :: "nat option"
  queueAfter :: "'a Queue"

text \<open>
  \<open>Condition::wait(timeout)\<close> against a wake: whether it was notified, and the
  milliseconds it took. With a negative timeout it waits until it is notified.
\<close>

definition condition_wait :: "int \<Rightarrow> 'a wake \<Rightarrow> (bool \<times> int) option" where
  "condition_wait timeout w =
     (case notifiedAfter w of
        Some d \<Rightarrow>
          if timeout < 0 \<or> int d \<le> timeout then Some (True, int d)
          else Some (False, timeout)
      | None \<Rightarrow> if timeout < 0 then None else Some (False, timeout))"

text \<open>
  The loop of \<open>waitForInvariant_\<close>, with the clock (milliseconds) and the queue as
  state. \<open>None\<close>: the call has not returned when the script ends.
\<close>

fun waitLoop ::
  "int \<Rightarrow> ('a Queue \<Rightarrow> bool) \<Rightarrow> bool \<Rightarrow> int \<times> 'a Queue \<Rightarrow> 'a wake list \<Rightarrow>
   (bool \<times> int \<times> 'a Queue \<times> 'a wake list) option" where
  "waitLoop timeout invariant haveTime (now, q) [] =
     (if \<not> invariant q \<and> haveTime then None else Some (invariant q, now, q, []))"
| "waitLoop timeout invariant haveTime (now, q) (w # ws) =
     (if \<not> invariant q \<and> haveTime then
        (case condition_wait timeout w of
           None \<Rightarrow> None
         | Some (haveTime', d) \<Rightarrow>
             waitLoop timeout invariant haveTime' (now + d, queueAfter w) ws)
      else Some (invariant q, now, q, w # ws))"

definition waitForInvariant ::
  "int \<Rightarrow> ('a Queue \<Rightarrow> bool) \<Rightarrow> int \<times> 'a Queue \<Rightarrow> 'a wake list \<Rightarrow>
   (bool \<times> int \<times> 'a Queue \<times> 'a wake list) option" where
  "waitForInvariant timeout invariant st script = waitLoop timeout invariant True st script"

text \<open>
  \<open>waitUntilHighWaterMark_\<close>: the first wait is on \<open>lowWaterMarkCv_\<close>, the second on
  \<open>highWaterMarkCv_\<close>; \<open>timeLeft\<close> is computed and the second wait is given
  \<open>timeout\<close>.
\<close>

definition waitUntilHighWaterMark ::
  "int \<Rightarrow> int \<times> 'a Queue \<Rightarrow> 'a wake list \<Rightarrow>
   (bool \<times> int \<times> 'a Queue \<times> 'a wake list) option" where
  "waitUntilHighWaterMark timeout st script =
     (let start = fst st
      in case waitForInvariant timeout (\<lambda>q. \<not> q_highWaterCrossed q) st script of
           None \<Rightarrow> None
         | Some (r, now, q, script') \<Rightarrow>
             if \<not> r then Some (False, now, q, script')
             else
               (let timeLeft = max 0 (now - start)
                in waitForInvariant timeout (\<lambda>q. length (q_q q) > q_highWaterMark q)
                     (now, q) script'))"

text \<open>
  \<open>waitUntilLowWaterMark_\<close>: the first wait is on \<open>highWaterMarkCv_\<close>, the second on
  \<open>lowWaterMarkCv_\<close> with \<open>timeLeft = max(0, toMs(now - start))\<close>.
\<close>

definition waitUntilLowWaterMark ::
  "int \<Rightarrow> int \<times> 'a Queue \<Rightarrow> 'a wake list \<Rightarrow>
   (bool \<times> int \<times> 'a Queue \<times> 'a wake list) option" where
  "waitUntilLowWaterMark timeout st script =
     (let start = fst st
      in case waitForInvariant timeout (\<lambda>q. q_highWaterCrossed q) st script of
           None \<Rightarrow> None
         | Some (r, now, q, script') \<Rightarrow>
             if \<not> r then Some (False, now, q, script')
             else
               (let timeLeft = max 0 (now - start)
                in waitForInvariant timeLeft (\<lambda>q. length (q_q q) \<le> q_lowWaterMark q)
                     (now, q) script'))"

definition waitUntilEmpty ::
  "int \<Rightarrow> int \<times> 'a Queue \<Rightarrow> 'a wake list \<Rightarrow>
   (bool \<times> int \<times> 'a Queue \<times> 'a wake list) option" where
  "waitUntilEmpty timeout st script = waitForInvariant timeout (\<lambda>q. q_q q = []) st script"

definition waitUntilNotEmpty ::
  "int \<Rightarrow> int \<times> 'a Queue \<Rightarrow> 'a wake list \<Rightarrow>
   (bool \<times> int \<times> 'a Queue \<times> 'a wake list) option" where
  "waitUntilNotEmpty timeout st script =
     waitForInvariant timeout (\<lambda>q. q_q q \<noteq> []) st script"

definition waitUntilFull ::
  "int \<Rightarrow> int \<times> 'a Queue \<Rightarrow> 'a wake list \<Rightarrow>
   (bool \<times> int \<times> 'a Queue \<times> 'a wake list) option" where
  "waitUntilFull timeout st script =
     waitForInvariant timeout (\<lambda>q. length (q_q q) \<ge> q_maxSize q) st script"

definition waitUntilNotFull ::
  "int \<Rightarrow> int \<times> 'a Queue \<Rightarrow> 'a wake list \<Rightarrow>
   (bool \<times> int \<times> 'a Queue \<times> 'a wake list) option" where
  "waitUntilNotFull timeout st script =
     waitForInvariant timeout (\<lambda>q. length (q_q q) < q_maxSize q) st script"

text \<open>\<open>Queue::wait(timeout, eventType)\<close>: one case for each event.\<close>

fun Queue_wait ::
  "int \<Rightarrow> QueueEventType \<Rightarrow> int \<times> 'a Queue \<Rightarrow> 'a wake list \<Rightarrow>
   (bool \<times> int \<times> 'a Queue \<times> 'a wake list) option" where
  "Queue_wait timeout EMPTY st script = waitUntilEmpty timeout st script"
| "Queue_wait timeout NOT_EMPTY st script = waitUntilNotEmpty timeout st script"
| "Queue_wait timeout FULL st script = waitUntilFull timeout st script"
| "Queue_wait timeout NOT_FULL st script = waitUntilNotFull timeout st script"
| "Queue_wait timeout HIGH_WATER_MARK st script = waitUntilHighWaterMark timeout st script"
| "Queue_wait timeout LOW_WATER_MARK st script = waitUntilLowWaterMark timeout st script"

text \<open>The milliseconds between the call and its return.\<close>

definition elapsed ::
  "int \<Rightarrow> (bool \<times> int \<times> 'a Queue \<times> 'a wake list) option \<Rightarrow> int option" where
  "elapsed start r = (case r of None \<Rightarrow> None | Some (b, now, q, script) \<Rightarrow> Some (now - start))"

text \<open>
  The queues of the example: capacity 10, marks 2 and 4; empty, after five puts (above
  the high water mark, latch set), and after three gets more (at the low water mark,
  latch clear).
\<close>

definition example_empty :: "nat Queue" where
  "example_empty =
     \<lparr>q_maxSize = 10, q_lowWaterMark = 2, q_highWaterMark = 4, q_q = [],
      q_queueState = \<lparr>rwt_fd = 3, rwt_state = WRITE_ONLY, rwt_value = 0\<rparr>,
      q_highWaterCrossed = False, q_notified = []\<rparr>"

definition example_high :: "nat Queue" where
  "example_high = run [Put 1 (-1), Put 2 (-1), Put 3 (-1), Put 4 (-1), Put 5 (-1)] example_empty"

definition example_low :: "nat Queue" where
  "example_low = run [Get, Get, Get] example_high"

subsection \<open>Predicates used in the proofs\<close>

text \<open>The watermark notifications among the notifications issued, in order.\<close>

definition wm :: "QueueEventType list \<Rightarrow> QueueEventType list" where
  "wm = filter (\<lambda>e. e = HIGH_WATER_MARK \<or> e = LOW_WATER_MARK)"

text \<open>
  The marks are ordered, no two watermark notifications in a row are the same, and the
  latch is set exactly when the last watermark notification was the high one.
\<close>

definition latch_inv :: "'a Queue \<Rightarrow> bool" where
  "latch_inv q =
     (q_lowWaterMark q \<le> q_highWaterMark q \<and>
      distinct_adj (wm (q_notified q)) \<and>
      q_highWaterCrossed q =
        (wm (q_notified q) \<noteq> [] \<and> last (wm (q_notified q)) = HIGH_WATER_MARK))"

text \<open>
  The high water mark is the capacity, the size is within the capacity and the high
  water mark has not been notified.
\<close>

definition marks_at_max :: "'a Queue \<Rightarrow> bool" where
  "marks_at_max q =
     (q_highWaterMark q = q_maxSize q \<and> length (q_q q) \<le> q_maxSize q \<and>
      HIGH_WATER_MARK \<notin> set (q_notified q))"

text \<open>
  No semaphore of a condition holds more than one token, and none that holds one is in
  the queue.
\<close>

definition sum_inv :: "Condition \<Rightarrow> bool" where
  "sum_inv c = (\<forall>s. cv_sems c s + count_list (cv_queue c) s \<le> 1)"

text \<open>
  The semaphore \<open>s\<close> is in the queue once and holds no token, or has left the queue
  and holds one; and it is not an observer's.
\<close>

definition armed :: "int \<Rightarrow> Condition \<Rightarrow> bool" where
  "armed s c = (cv_sems c s + count_list (cv_queue c) s = 1 \<and> s \<notin> cv_observers c)"

text \<open>\<open>numFds_\<close> is the number of registered descriptors.\<close>

definition count_inv :: "EpollSet \<Rightarrow> bool" where
  "count_inv s =
     (finite (dom (es_interest s)) \<and> es_numFds s = of_nat (card (dom (es_interest s))))"

section \<open>Properties\<close>

subsection \<open>Evaluation and the effect of the notification steps\<close>

lemmas queue_eval = Queue_new_maxSize_def Queue_new_def ReadWriteToggle_init_def
      setQueueState_def setState_def changeState_def readValue_def writeValue_def
      put_def executePut_def get_def get_timeout_def clear_def getAll_def issueNotifications_def
      ifNotEmpty_def ifEmpty_def ifNotFull_def ifFull_def ifHighWaterMark_def
      ifLowWaterMark_def notifyAllCv_def size_q_def Let_def run_def fired_def
      setLowWaterMark_def setHighWaterMark_def

lemmas if_defs = ifNotEmpty_def ifEmpty_def ifNotFull_def ifFull_def ifHighWaterMark_def
      ifLowWaterMark_def notifyAllCv_def setQueueState_def

lemma step_fields [simp]:
  "q_maxSize (ifNotEmpty old new q) = q_maxSize q"
  "q_maxSize (ifEmpty old new q) = q_maxSize q"
  "q_maxSize (ifNotFull old new q) = q_maxSize q"
  "q_maxSize (ifFull old new q) = q_maxSize q"
  "q_maxSize (ifHighWaterMark old new q) = q_maxSize q"
  "q_maxSize (ifLowWaterMark old new q) = q_maxSize q"
  "q_lowWaterMark (ifNotEmpty old new q) = q_lowWaterMark q"
  "q_lowWaterMark (ifEmpty old new q) = q_lowWaterMark q"
  "q_lowWaterMark (ifNotFull old new q) = q_lowWaterMark q"
  "q_lowWaterMark (ifFull old new q) = q_lowWaterMark q"
  "q_lowWaterMark (ifHighWaterMark old new q) = q_lowWaterMark q"
  "q_lowWaterMark (ifLowWaterMark old new q) = q_lowWaterMark q"
  "q_highWaterMark (ifNotEmpty old new q) = q_highWaterMark q"
  "q_highWaterMark (ifEmpty old new q) = q_highWaterMark q"
  "q_highWaterMark (ifNotFull old new q) = q_highWaterMark q"
  "q_highWaterMark (ifFull old new q) = q_highWaterMark q"
  "q_highWaterMark (ifHighWaterMark old new q) = q_highWaterMark q"
  "q_highWaterMark (ifLowWaterMark old new q) = q_highWaterMark q"
  "q_q (ifNotEmpty old new q) = q_q q"
  "q_q (ifEmpty old new q) = q_q q"
  "q_q (ifNotFull old new q) = q_q q"
  "q_q (ifFull old new q) = q_q q"
  "q_q (ifHighWaterMark old new q) = q_q q"
  "q_q (ifLowWaterMark old new q) = q_q q"
  "q_highWaterCrossed (ifNotEmpty old new q) = q_highWaterCrossed q"
  "q_highWaterCrossed (ifEmpty old new q) = q_highWaterCrossed q"
  "q_highWaterCrossed (ifNotFull old new q) = q_highWaterCrossed q"
  "q_highWaterCrossed (ifFull old new q) = q_highWaterCrossed q"
  by (simp_all add: if_defs)

lemma issue_fields [simp]:
  "q_maxSize (issueNotifications old new q) = q_maxSize q"
  "q_lowWaterMark (issueNotifications old new q) = q_lowWaterMark q"
  "q_highWaterMark (issueNotifications old new q) = q_highWaterMark q"
  "q_q (issueNotifications old new q) = q_q q"
  by (simp_all add: issueNotifications_def)

lemma wm_steps [simp]:
  "wm (q_notified (ifNotEmpty old new q)) = wm (q_notified q)"
  "wm (q_notified (ifEmpty old new q)) = wm (q_notified q)"
  "wm (q_notified (ifNotFull old new q)) = wm (q_notified q)"
  "wm (q_notified (ifFull old new q)) = wm (q_notified q)"
  by (simp_all add: if_defs wm_def)

lemma wm_high:
  "wm (q_notified (ifHighWaterMark old new q)) = wm (q_notified q) @
     (if old \<le> q_highWaterMark q \<and> new > q_highWaterMark q \<and> \<not> q_highWaterCrossed q
      then [HIGH_WATER_MARK] else [])"
  by (simp add: ifHighWaterMark_def notifyAllCv_def wm_def)

lemma wm_low:
  "wm (q_notified (ifLowWaterMark old new q)) = wm (q_notified q) @
     (if old > q_lowWaterMark q \<and> new \<le> q_lowWaterMark q \<and> q_highWaterCrossed q
      then [LOW_WATER_MARK] else [])"
  by (simp add: ifLowWaterMark_def notifyAllCv_def wm_def)

lemma hwc_high:
  "q_highWaterCrossed (ifHighWaterMark old new q) =
     (q_highWaterCrossed q \<or> (old \<le> q_highWaterMark q \<and> new > q_highWaterMark q))"
  by (auto simp add: ifHighWaterMark_def notifyAllCv_def)

lemma hwc_low:
  "q_highWaterCrossed (ifLowWaterMark old new q) =
     (q_highWaterCrossed q \<and> \<not> (old > q_lowWaterMark q \<and> new \<le> q_lowWaterMark q))"
  by (auto simp add: ifLowWaterMark_def notifyAllCv_def)

lemma issue_hwc:
  "q_lowWaterMark q \<le> q_highWaterMark q \<Longrightarrow>
   q_highWaterCrossed (issueNotifications old new q) =
     (if old \<le> q_highWaterMark q \<and> new > q_highWaterMark q \<and> \<not> q_highWaterCrossed q then True
      else if old > q_lowWaterMark q \<and> new \<le> q_lowWaterMark q \<and> q_highWaterCrossed q then False
      else q_highWaterCrossed q)"
  by (auto simp add: issueNotifications_def hwc_high hwc_low)

lemma issue_wm:
  "q_lowWaterMark q \<le> q_highWaterMark q \<Longrightarrow>
   wm (q_notified (issueNotifications old new q)) = wm (q_notified q) @
     (if old \<le> q_highWaterMark q \<and> new > q_highWaterMark q \<and> \<not> q_highWaterCrossed q then [HIGH_WATER_MARK]
      else if old > q_lowWaterMark q \<and> new \<le> q_lowWaterMark q \<and> q_highWaterCrossed q then [LOW_WATER_MARK] else [])"
  by (auto simp add: issueNotifications_def wm_low wm_high hwc_high)

lemma wm_last: "wm xs \<noteq> [] \<Longrightarrow> last (wm xs) = HIGH_WATER_MARK \<or> last (wm xs) = LOW_WATER_MARK"
proof -
  assume "wm xs \<noteq> []"
  then have "last (wm xs) \<in> set (wm xs)" by (rule last_in_set)
  then show ?thesis by (simp add: wm_def)
qed

lemma latch_inv_issue:
  assumes "latch_inv q"
  shows "latch_inv (issueNotifications old new q)"
proof -
  from assms have le: "q_lowWaterMark q \<le> q_highWaterMark q" by (simp add: latch_inv_def)
  show ?thesis
    using assms wm_last[of "q_notified q"]
    by (auto simp add: latch_inv_def issue_wm[OF le] issue_hwc[OF le] distinct_adj_append_iff)
qed

lemma latch_inv_setq: "latch_inv (q\<lparr>q_q := xs\<rparr>) = latch_inv q"
  by (simp add: latch_inv_def)

lemma latch_inv_apply_op: "latch_inv q \<Longrightarrow> latch_inv (apply_op op q)"
proof (cases op)
  case (Put item timeout)
  assume "latch_inv q"
  then show ?thesis using Put
    by (simp add: put_def executePut_def Let_def latch_inv_issue latch_inv_setq)
next
  case Get
  assume "latch_inv q"
  then show ?thesis using Get
    by (simp add: get_def latch_inv_issue latch_inv_setq split: list.split)
next
  case (GetTimeout timeout)
  assume "latch_inv q"
  then show ?thesis using GetTimeout
    by (simp add: get_timeout_def get_def latch_inv_issue latch_inv_setq split: list.split)
next
  case GetAll
  assume "latch_inv q"
  then show ?thesis using GetAll
    by (simp add: getAll_def Let_def latch_inv_issue latch_inv_setq)
next
  case Clear
  assume "latch_inv q"
  then show ?thesis using Clear
    by (simp add: clear_def Let_def latch_inv_issue latch_inv_setq)
next
  case (SetLowWaterMark v)
  assume "latch_inv q"
  then show ?thesis using SetLowWaterMark
    by (simp add: setLowWaterMark_def latch_inv_def)
next
  case (SetHighWaterMark v)
  assume "latch_inv q"
  then show ?thesis using SetHighWaterMark
    by (simp add: setHighWaterMark_def latch_inv_def)
qed

lemma latch_inv_run: "latch_inv q \<Longrightarrow> latch_inv (run ops q)"
  unfolding run_def by (induction ops arbitrary: q) (simp_all add: latch_inv_apply_op)

lemma latch_inv_new: "Queue_new tfd m l h = Inr q \<Longrightarrow> latch_inv q"
  by (auto simp add: Queue_new_def latch_inv_def setQueueState_def wm_def split: if_splits)

lemma adjacent_same_only:
  "distinct_adj (e # ys @ [e]) \<Longrightarrow> set ys \<subseteq> {e} \<Longrightarrow> False"
  by (cases ys) auto

lemma between_events:
  assumes da: "distinct_adj (filter (\<lambda>x. x = e \<or> x = e') xs)"
    and ij: "i < j" and jl: "j < length xs"
    and xi: "xs ! i = e" and xj: "xs ! j = e"
  shows "\<exists>k. i < k \<and> k < j \<and> xs ! k = e'"
proof (rule ccontr)
  assume neg: "\<not> (\<exists>k. i < k \<and> k < j \<and> xs ! k = e')"
  define P where "P = (\<lambda>x. x = e \<or> x = e')"
  define ys where "ys = drop (Suc i) xs"
  define m where "m = j - Suc i"
  have il: "i < length xs" using ij jl by simp
  have xs_eq: "xs = take i xs @ e # ys"
    using id_take_nth_drop[OF il] xi by (simp add: ys_def)
  have m_lt: "m < length ys" using ij jl by (simp add: ys_def m_def)
  have ysm: "ys ! m = e" using ij jl xj by (simp add: ys_def m_def)
  have ys_eq: "ys = take m ys @ e # drop (Suc m) ys"
    using id_take_nth_drop[OF m_lt] ysm by simp
  have mid: "x \<noteq> e'" if "x \<in> set (take m ys)" for x
  proof
    assume xe: "x = e'"
    from that obtain k where k: "k < length (take m ys)" "take m ys ! k = x"
      by (auto simp add: in_set_conv_nth)
    then have km: "k < m" by simp
    then have "xs ! (Suc i + k) = x" using k m_lt by (simp add: ys_def)
    moreover have "i < Suc i + k" "Suc i + k < j" using km by (simp_all add: m_def)
    ultimately show False using neg xe by blast
  qed
  then have fm: "set (filter P (take m ys)) \<subseteq> {e}" by (auto simp add: P_def)
  have "filter P xs = filter P (take i xs @ e # take m ys @ e # drop (Suc m) ys)"
    using xs_eq ys_eq by simp
  then have "filter P xs =
      filter P (take i xs) @ (e # filter P (take m ys) @ [e]) @ filter P (drop (Suc m) ys)"
    by (simp add: P_def)
  with da have "distinct_adj (filter P (take i xs) @ (e # filter P (take m ys) @ [e]) @ filter P (drop (Suc m) ys))"
    by (simp add: P_def)
  then have "distinct_adj (e # filter P (take m ys) @ [e])"
    using distinct_adj_appendD1 distinct_adj_appendD2 by blast
  with fm show False by (rule adjacent_same_only[rotated -1])
qed

lemma log_steps:
  "q_notified (ifNotEmpty old new q) =
     q_notified q @ (if old = 0 \<and> new \<noteq> 0 then [NOT_EMPTY] else [])"
  "q_notified (ifEmpty old new q) =
     q_notified q @ (if old \<noteq> 0 \<and> new = 0 then [EMPTY] else [])"
  "q_notified (ifNotFull old new q) =
     q_notified q @ (if old \<ge> q_maxSize q \<and> new < q_maxSize q then [NOT_FULL] else [])"
  "q_notified (ifFull old new q) =
     q_notified q @ (if old < q_maxSize q \<and> new \<ge> q_maxSize q then [FULL] else [])"
  "q_notified (ifHighWaterMark old new q) =
     q_notified q @ (if old \<le> q_highWaterMark q \<and> new > q_highWaterMark q \<and>
                        \<not> q_highWaterCrossed q then [HIGH_WATER_MARK] else [])"
  "q_notified (ifLowWaterMark old new q) =
     q_notified q @ (if old > q_lowWaterMark q \<and> new \<le> q_lowWaterMark q \<and>
                        q_highWaterCrossed q then [LOW_WATER_MARK] else [])"
  by (simp_all add: if_defs)

lemma issue_log:
  "q_notified (issueNotifications old new q) =
     q_notified q @
     (if old = 0 \<and> new \<noteq> 0 then [NOT_EMPTY] else []) @
     (if old \<noteq> 0 \<and> new = 0 then [EMPTY] else []) @
     (if old \<ge> q_maxSize q \<and> new < q_maxSize q then [NOT_FULL] else []) @
     (if old < q_maxSize q \<and> new \<ge> q_maxSize q then [FULL] else []) @
     (if old \<le> q_highWaterMark q \<and> new > q_highWaterMark q \<and>
         \<not> q_highWaterCrossed q then [HIGH_WATER_MARK] else []) @
     (if old > q_lowWaterMark q \<and> new \<le> q_lowWaterMark q \<and>
         (q_highWaterCrossed q \<or> (old \<le> q_highWaterMark q \<and> new > q_highWaterMark q))
      then [LOW_WATER_MARK] else [])"
  unfolding issueNotifications_def
  by (simp only: log_steps step_fields hwc_high append_assoc)

lemma issued_high:
  "HIGH_WATER_MARK \<in> set (drop (length (q_notified q))
       (q_notified (issueNotifications old new (q\<lparr>q_q := xs\<rparr>)))) \<longleftrightarrow>
   old \<le> q_highWaterMark q \<and> new > q_highWaterMark q \<and> \<not> q_highWaterCrossed q"
  by (simp add: issue_log)

lemma issued_low:
  "q_lowWaterMark q \<le> q_highWaterMark q \<Longrightarrow>
   LOW_WATER_MARK \<in> set (drop (length (q_notified q))
       (q_notified (issueNotifications old new (q\<lparr>q_q := xs\<rparr>)))) \<longleftrightarrow>
   old > q_lowWaterMark q \<and> new \<le> q_lowWaterMark q \<and> q_highWaterCrossed q"
  by (auto simp add: issue_log)

lemma fired_high:
  "HIGH_WATER_MARK \<in> set (fired op q) \<longleftrightarrow>
   size_q q \<le> q_highWaterMark q \<and> size_q (apply_op op q) > q_highWaterMark q \<and>
   \<not> q_highWaterCrossed q"
proof (cases op)
  case (Put item timeout)
  then show ?thesis
    by (simp add: fired_def put_def executePut_def Let_def issued_high size_q_def) 
next
  case Get
  then show ?thesis
    by (cases "q_q q") (simp_all add: fired_def get_def issued_high size_q_def)
next
  case (GetTimeout timeout)
  then show ?thesis
    by (cases "q_q q") (simp_all add: fired_def get_timeout_def get_def issued_high size_q_def)
next
  case GetAll
  then show ?thesis
    by (simp add: fired_def getAll_def Let_def issued_high size_q_def)
next
  case Clear
  then show ?thesis
    by (simp add: fired_def clear_def Let_def issued_high size_q_def)
next
  case (SetLowWaterMark v)
  then show ?thesis
    by (simp add: fired_def setLowWaterMark_def size_q_def)
next
  case (SetHighWaterMark v)
  then show ?thesis
    by (simp add: fired_def setHighWaterMark_def size_q_def)
qed

lemma fired_low:
  assumes le: "q_lowWaterMark q \<le> q_highWaterMark q"
  shows "LOW_WATER_MARK \<in> set (fired op q) \<longleftrightarrow>
   size_q q > q_lowWaterMark q \<and> size_q (apply_op op q) \<le> q_lowWaterMark q \<and>
   q_highWaterCrossed q"
proof (cases op)
  case (Put item timeout)
  then show ?thesis
    by (simp add: fired_def put_def executePut_def Let_def issued_low[OF le] size_q_def) 
next
  case Get
  then show ?thesis
    by (cases "q_q q") (simp_all add: fired_def get_def issued_low[OF le] size_q_def)
next
  case (GetTimeout timeout)
  then show ?thesis
    by (cases "q_q q") (simp_all add: fired_def get_timeout_def get_def issued_low[OF le] size_q_def)
next
  case GetAll
  then show ?thesis
    by (simp add: fired_def getAll_def Let_def issued_low[OF le] size_q_def)
next
  case Clear
  then show ?thesis
    by (simp add: fired_def clear_def Let_def issued_low[OF le] size_q_def)
next
  case (SetLowWaterMark v)
  then show ?thesis
    by (simp add: fired_def setLowWaterMark_def size_q_def)
next
  case (SetHighWaterMark v)
  then show ?thesis
    by (simp add: fired_def setHighWaterMark_def size_q_def)
qed

lemma maxSize_apply_op: "q_maxSize (apply_op op q) = q_maxSize q"
  by (cases op)
     (simp_all add: put_def executePut_def get_def get_timeout_def getAll_def clear_def
        setLowWaterMark_def setHighWaterMark_def Let_def split: list.split)

lemma maxSize_run: "q_maxSize (run ops q) = q_maxSize q"
  unfolding run_def by (induction ops arbitrary: q) (simp_all add: maxSize_apply_op)

lemma marks_at_max_issue:
  "marks_at_max q \<Longrightarrow> new \<le> q_maxSize q \<Longrightarrow> length xs \<le> q_maxSize q \<Longrightarrow>
   marks_at_max (issueNotifications old new (q\<lparr>q_q := xs\<rparr>))"
  by (simp add: marks_at_max_def issue_log)

lemma marks_at_max_apply_op:
  assumes "marks_at_max q" "is_mutation op"
  shows "marks_at_max (apply_op op q)"
proof (cases op)
  case (Put item timeout)
  have "length (q_q q) \<le> q_maxSize q" using assms(1) by (simp add: marks_at_max_def)
  then show ?thesis using Put assms(1)
    by (simp add: put_def executePut_def Let_def marks_at_max_issue)
next
  case Get
  have "length (q_q q) \<le> q_maxSize q" using assms(1) by (simp add: marks_at_max_def)
  then show ?thesis using Get assms(1)
    by (cases "q_q q") (simp_all add: get_def marks_at_max_issue)
next
  case (GetTimeout timeout)
  have "length (q_q q) \<le> q_maxSize q" using assms(1) by (simp add: marks_at_max_def)
  then show ?thesis using GetTimeout assms(1)
    by (cases "q_q q") (simp_all add: get_timeout_def get_def marks_at_max_issue)
next
  case GetAll
  then show ?thesis using assms(1)
    by (simp add: getAll_def Let_def marks_at_max_issue)
next
  case Clear
  then show ?thesis using assms(1)
    by (simp add: clear_def Let_def marks_at_max_issue)
next
  case (SetLowWaterMark v)
  then show ?thesis using assms(2) by simp
next
  case (SetHighWaterMark v)
  then show ?thesis using assms(2) by simp
qed

lemma marks_at_max_run:
  "marks_at_max q \<Longrightarrow> list_all is_mutation ops \<Longrightarrow> marks_at_max (run ops q)"
  unfolding run_def
  by (induction ops arbitrary: q) (simp_all add: marks_at_max_apply_op)

lemma marks_at_max_new: "Queue_new_maxSize tfd m = Inr q \<Longrightarrow> marks_at_max q"
  by (auto simp add: Queue_new_maxSize_def Queue_new_def marks_at_max_def setQueueState_def
      split: if_splits)

subsection \<open>The queue-state toggle\<close>

lemma setState_value:
  "rwt_value t = STATE_VALUES (rwt_state t) \<Longrightarrow>
   rwt_value (setState st t) = STATE_VALUES st \<and> rwt_state (setState st t) = st"
  by (cases st; cases "rwt_state t")
     (simp_all add: setState_def changeState_def readValue_def writeValue_def Let_def)

lemma state_setQueueState [simp]:
  "rwt_state (q_queueState (setQueueState st q)) = st"
  by (simp add: setQueueState_def setState_def changeState_def Let_def)

lemma state_steps:
  "rwt_state (q_queueState (ifNotEmpty old new q)) =
     (if old = 0 \<and> new \<noteq> 0 then READ_WRITE else rwt_state (q_queueState q))"
  "rwt_state (q_queueState (ifEmpty old new q)) =
     (if old \<noteq> 0 \<and> new = 0 then WRITE_ONLY else rwt_state (q_queueState q))"
  "rwt_state (q_queueState (ifNotFull old new q)) =
     (if old \<ge> q_maxSize q \<and> new < q_maxSize q then READ_WRITE
      else rwt_state (q_queueState q))"
  "rwt_state (q_queueState (ifFull old new q)) =
     (if old < q_maxSize q \<and> new \<ge> q_maxSize q then READ_ONLY
      else rwt_state (q_queueState q))"
  "rwt_state (q_queueState (ifHighWaterMark old new q)) = rwt_state (q_queueState q)"
  "rwt_state (q_queueState (ifLowWaterMark old new q)) = rwt_state (q_queueState q)"
  by (simp_all add: ifNotEmpty_def ifEmpty_def ifNotFull_def ifFull_def ifHighWaterMark_def
      ifLowWaterMark_def notifyAllCv_def)

text \<open>
  When the toggle encodes the old size of a queue of positive capacity, after the
  notifications it encodes the new size, unless the queue went from full to empty.
\<close>

lemma queueState_after_issueNotifications:
  assumes "rwt_state (q_queueState q) = stateForSize (q_maxSize q) old"
    and "0 < q_maxSize q"
  shows "rwt_state (q_queueState (issueNotifications old new q)) =
           (if old \<ge> q_maxSize q \<and> new = 0 then READ_WRITE
            else stateForSize (q_maxSize q) new)"
  using assms
  by (auto simp add: issueNotifications_def state_steps stateForSize_def)

text \<open>
  C1. After a completed mutating operation the queue-state toggle should encode the
  size: WRITE_ONLY for an empty queue, READ_ONLY for a full one. The code does not keep
  this when a full queue becomes empty in one step: \<open>issueNotifications_\<close> first sets
  WRITE_ONLY (the queue became empty) and then READ_WRITE (the queue stopped being full).
  Every other change of size leaves the toggle right
  (\<open>queueState_after_issueNotifications\<close>). On a queue of capacity one, \<open>put\<close>
  followed by \<open>get\<close> leaves an empty queue whose toggle reads READ_WRITE; so do
  \<open>clear\<close> and \<open>getAll\<close> on a full queue of capacity two.
\<close>

theorem queueState_full_to_empty_is_read_write:
  "(case Queue_new_maxSize 3 1 of
      Inl e \<Rightarrow> False
    | Inr q0 \<Rightarrow>
        (let q1 = snd (put (7::nat) (-1) q0);
             q2 = snd (get q1)
         in rwt_state (q_queueState q1) = READ_ONLY \<and> size_q q1 = q_maxSize q1 \<and>
            size_q q2 = 0 \<and> rwt_state (q_queueState q2) = READ_WRITE)) \<and>
   (case Queue_new 3 2 1 2 of
      Inl e \<Rightarrow> False
    | Inr q0 \<Rightarrow>
        (let q2 = snd (put (8::nat) (-1) (snd (put 7 (-1) q0)));
             q3 = snd (clear q2);
             q4 = snd (getAll q2)
         in size_q q2 = q_maxSize q2 \<and> rwt_state (q_queueState q2) = READ_ONLY \<and>
            size_q q3 = 0 \<and> rwt_state (q_queueState q3) = READ_WRITE \<and>
            size_q q4 = 0 \<and> rwt_state (q_queueState q4) = READ_WRITE))"
  by (simp add: queue_eval)

subsection \<open>Watermark events\<close>

text \<open>
  C4. Watermark hysteresis. From a freshly constructed queue, after any sequence of
  operations (the mutating ones and the two watermark setters): between any two
  notifications of the high water mark there is one of the low water mark, and between
  any two of the low water mark one of the high water mark; and the next operation
  notifies the high water mark exactly when it takes the size from at most the high
  water mark to above it while the latch is clear, and the low water mark exactly when
  it takes the size from above the low water mark to at most it while the latch is set.
\<close>

theorem watermark_hysteresis:
  assumes new: "Queue_new tfd maxSize lowWaterMark highWaterMark = Inr q0"
  shows "(\<forall>i j. i < j \<and> j < length (q_notified (run ops q0)) \<and>
            q_notified (run ops q0) ! i = HIGH_WATER_MARK \<and>
            q_notified (run ops q0) ! j = HIGH_WATER_MARK \<longrightarrow>
            (\<exists>k. i < k \<and> k < j \<and> q_notified (run ops q0) ! k = LOW_WATER_MARK)) \<and>
         (\<forall>i j. i < j \<and> j < length (q_notified (run ops q0)) \<and>
            q_notified (run ops q0) ! i = LOW_WATER_MARK \<and>
            q_notified (run ops q0) ! j = LOW_WATER_MARK \<longrightarrow>
            (\<exists>k. i < k \<and> k < j \<and> q_notified (run ops q0) ! k = HIGH_WATER_MARK)) \<and>
         (HIGH_WATER_MARK \<in> set (fired op (run ops q0)) \<longleftrightarrow>
            size_q (run ops q0) \<le> q_highWaterMark (run ops q0) \<and>
            size_q (apply_op op (run ops q0)) > q_highWaterMark (run ops q0) \<and>
            \<not> q_highWaterCrossed (run ops q0)) \<and>
         (LOW_WATER_MARK \<in> set (fired op (run ops q0)) \<longleftrightarrow>
            size_q (run ops q0) > q_lowWaterMark (run ops q0) \<and>
            size_q (apply_op op (run ops q0)) \<le> q_lowWaterMark (run ops q0) \<and>
            q_highWaterCrossed (run ops q0))"
proof -
  have inv: "latch_inv (run ops q0)"
    using latch_inv_new[OF new] by (rule latch_inv_run)
  then have da: "distinct_adj (filter (\<lambda>e. e = HIGH_WATER_MARK \<or> e = LOW_WATER_MARK)
                    (q_notified (run ops q0)))"
    by (simp add: latch_inv_def wm_def)
  then have da': "distinct_adj (filter (\<lambda>e. e = LOW_WATER_MARK \<or> e = HIGH_WATER_MARK)
                    (q_notified (run ops q0)))"
    by (simp add: disj_commute)
  from inv have le: "q_lowWaterMark (run ops q0) \<le> q_highWaterMark (run ops q0)"
    by (simp add: latch_inv_def)
  show ?thesis
    using between_events[OF da] between_events[OF da'] fired_high[of op "run ops q0"]
      fired_low[OF le, of op]
    by blast
qed

text \<open>
  The theorem at a queue of capacity 3 with marks 0 and 1: two puts, two gets, two puts.
\<close>

theorem watermark_hysteresis_witness:
  "\<exists>q0 :: nat Queue.
     Queue_new 3 3 0 1 = Inr q0 \<and>
     q_notified (run [Put 1 (-1), Put 2 (-1), Get, Get, Put 3 (-1), Put 4 (-1)] q0) =
       [NOT_EMPTY, HIGH_WATER_MARK, EMPTY, LOW_WATER_MARK, NOT_EMPTY, HIGH_WATER_MARK] \<and>
     (\<exists>k. 1 < k \<and> k < 5 \<and>
        q_notified (run [Put 1 (-1), Put 2 (-1), Get, Get, Put 3 (-1), Put 4 (-1)] q0) ! k =
          LOW_WATER_MARK) \<and>
     HIGH_WATER_MARK \<notin> set (fired (Put 5 (-1))
        (run [Put 1 (-1), Put 2 (-1), Get, Get, Put 3 (-1), Put 4 (-1)] q0)) \<and>
     LOW_WATER_MARK \<in> set (fired Clear
        (run [Put 1 (-1), Put 2 (-1), Get, Get, Put 3 (-1), Put 4 (-1)] q0))"
proof -
  define q0 :: "nat Queue" where "q0 =
     setQueueState WRITE_ONLY
             \<lparr>q_maxSize = 3, q_lowWaterMark = 0,
              q_highWaterMark = 1, q_q = [],
              q_queueState = ReadWriteToggle_init 3,
              q_highWaterCrossed = False, q_notified = []\<rparr>"
  define ops :: "nat QueueOp list" where
    "ops = [Put 1 (-1), Put 2 (-1), Get, Get, Put 3 (-1), Put 4 (-1)]"
  have new: "Queue_new 3 3 0 1 = Inr q0" by (simp add: Queue_new_def q0_def)
  have log: "q_notified (run ops q0) =
       [NOT_EMPTY, HIGH_WATER_MARK, EMPTY, LOW_WATER_MARK, NOT_EMPTY, HIGH_WATER_MARK]"
    by (simp add: q0_def ops_def queue_eval)
  have st: "size_q (run ops q0) = 2" "q_highWaterMark (run ops q0) = 1"
     "q_lowWaterMark (run ops q0) = 0" "q_highWaterCrossed (run ops q0)"
     "size_q (apply_op Clear (run ops q0)) = 0"
    by (simp_all add: q0_def ops_def queue_eval)
  note T = watermark_hysteresis[OF new, of ops]
  have between: "\<exists>k. 1 < k \<and> k < 5 \<and> q_notified (run ops q0) ! k = LOW_WATER_MARK"
  proof -
    have "(1::nat) < 5 \<and> 5 < length (q_notified (run ops q0)) \<and>
          q_notified (run ops q0) ! 1 = HIGH_WATER_MARK \<and>
          q_notified (run ops q0) ! 5 = HIGH_WATER_MARK"
      by (simp add: log)
    with T[of "Put 5 (-1)"] show ?thesis by blast
  qed
  have h: "HIGH_WATER_MARK \<notin> set (fired (Put 5 (-1)) (run ops q0))"
    using T[of "Put 5 (-1)"] st by simp
  have l: "LOW_WATER_MARK \<in> set (fired Clear (run ops q0))"
    using T[of Clear] st by simp
  show ?thesis using new log between h l unfolding ops_def by blast
qed

text \<open>
  C8. With both marks at the capacity, the claim expects a high water mark notification
  when the size goes from below the capacity to the capacity. The code notifies only
  when the size exceeds the mark: a put that fills a queue of capacity one notifies
  NOT_EMPTY and FULL, and not the high water mark.
\<close>

theorem high_water_event_at_max_counterexample:
  "(case Queue_new_maxSize 3 1 of
      Inl e \<Rightarrow> False
    | Inr q0 \<Rightarrow>
        q_lowWaterMark q0 = q_maxSize q0 \<and> q_highWaterMark q0 = q_maxSize q0 \<and>
        size_q q0 < q_maxSize q0 \<and>
        size_q (apply_op (Put (7::nat) (-1)) q0) = q_maxSize q0 \<and>
        fired (Put 7 (-1)) q0 = [NOT_EMPTY, FULL] \<and>
        HIGH_WATER_MARK \<notin> set (fired (Put 7 (-1)) q0))"
  by (simp add: queue_eval)

text \<open>
  C8, as the code has it: a queue constructed with both marks at the capacity never
  notifies the high water mark, whatever puts, gets, getAlls and clears follow; its
  size never exceeds the high water mark, which stays the capacity.
\<close>

theorem no_high_water_event_with_marks_at_max:
  assumes "Queue_new_maxSize tfd maxSize = Inr q0" and "list_all is_mutation ops"
  shows "HIGH_WATER_MARK \<notin> set (q_notified (run ops q0)) \<and>
         size_q (run ops q0) \<le> q_highWaterMark (run ops q0) \<and>
         q_highWaterMark (run ops q0) = maxSize"
proof -
  have "marks_at_max (run ops q0)"
    using marks_at_max_new[OF assms(1)] assms(2) by (rule marks_at_max_run)
  moreover have "q_maxSize (run ops q0) = maxSize"
    using assms(1)
    by (auto simp add: maxSize_run Queue_new_maxSize_def Queue_new_def setQueueState_def
        split: if_splits)
  ultimately show ?thesis by (simp add: marks_at_max_def size_q_def)
qed

theorem no_high_water_event_with_marks_at_max_witness:
  "\<exists>q0 :: nat Queue.
     Queue_new_maxSize 3 1 = Inr q0 \<and>
     list_all is_mutation [Put (7::nat) (-1), Get, Put 8 0] \<and>
     HIGH_WATER_MARK \<notin> set (q_notified (run [Put 7 (-1), Get, Put 8 0] q0)) \<and>
     size_q (run [Put 7 (-1), Get, Put 8 0] q0) \<le>
       q_highWaterMark (run [Put 7 (-1), Get, Put 8 0] q0) \<and>
     q_highWaterMark (run [Put 7 (-1), Get, Put 8 0] q0) = 1"
proof -
  obtain q0 :: "nat Queue" where new: "Queue_new_maxSize 3 1 = Inr q0"
    by (simp add: Queue_new_maxSize_def Queue_new_def)
  have mut: "list_all is_mutation [Put (7::nat) (-1), Get, Put 8 0]" by simp
  from no_high_water_event_with_marks_at_max[OF new mut] new mut show ?thesis by blast
qed

subsection \<open>Moving a queue\<close>

lemma Queue_move_source:
  "q_q (snd (Queue_move_construct tfd other)) = [] \<and>
   rwt_state (q_queueState (snd (Queue_move_construct tfd other))) = WRITE_ONLY \<and>
   \<not> q_highWaterCrossed (snd (Queue_move_construct tfd other)) \<and>
   q_q (snd (Queue_move_assign this other)) = [] \<and>
   rwt_state (q_queueState (snd (Queue_move_assign this other))) = WRITE_ONLY \<and>
   \<not> q_highWaterCrossed (snd (Queue_move_assign this other))"
  by (simp add: Queue_move_construct_def Queue_move_assign_def Let_def setQueueState_def
      setState_def changeState_def)

lemma Queue_move_destination:
  "q_q (fst (Queue_move_construct tfd other)) = q_q other \<and>
   q_highWaterCrossed (fst (Queue_move_construct tfd other)) = q_highWaterCrossed other \<and>
   q_q (fst (Queue_move_assign this other)) = q_q other \<and>
   q_highWaterCrossed (fst (Queue_move_assign this other)) = q_highWaterCrossed other"
  by (simp add: Queue_move_construct_def Queue_move_assign_def Let_def setQueueState_def)

lemma Queue_move_assign_toggle:
  "rwt_state (q_queueState (fst (Queue_move_assign this other))) =
     stateForSize (q_maxSize other) (length (q_q other))"
  by (simp add: Queue_move_assign_def Let_def setQueueState_def setState_def
      changeState_def stateForSize_def)

lemma Queue_move_construct_toggle:
  "rwt_state (q_queueState (fst (Queue_move_construct tfd other))) = READ_WRITE"
  by (simp add: Queue_move_construct_def Let_def ReadWriteToggle_init_def)

text \<open>
  C3. After a move the source is empty, its toggle WRITE_ONLY and its latch clear, and
  the destination has the items and the latch of the source: both moves do this
  (\<open>Queue_move_source\<close>, \<open>Queue_move_destination\<close>). The destination's toggle should
  match the size moved. The move assignment sets it so (\<open>Queue_move_assign_toggle\<close>);
  the move constructor leaves the destination's toggle as default-constructed,
  READ_WRITE, also when the queue moved is empty or full. Here a new, empty queue and a
  full queue of capacity one are moved both ways.
\<close>

theorem move_construct_leaves_toggle_read_write:
  "(case Queue_new 3 10 2 4 of
      Inl e \<Rightarrow> False
    | Inr (q :: nat Queue) \<Rightarrow>
        size_q (fst (Queue_move_construct 4 q)) = 0 \<and>
        rwt_state (q_queueState (fst (Queue_move_construct 4 q))) = READ_WRITE \<and>
        (case Queue_new 5 1 1 1 of
           Inl e \<Rightarrow> False
         | Inr (d :: nat Queue) \<Rightarrow>
             rwt_state (q_queueState (fst (Queue_move_assign d q))) = WRITE_ONLY)) \<and>
   (case Queue_new_maxSize 3 1 of
      Inl e \<Rightarrow> False
    | Inr (q0 :: nat Queue) \<Rightarrow>
        (let q = snd (put 7 (-1) q0)
         in size_q q = q_maxSize q \<and>
            size_q (fst (Queue_move_construct 4 q)) = q_maxSize (fst (Queue_move_construct 4 q)) \<and>
            rwt_state (q_queueState (fst (Queue_move_construct 4 q))) = READ_WRITE \<and>
            rwt_state (q_queueState (fst (Queue_move_assign q0 q))) = READ_ONLY))"
  by (simp add: queue_eval Queue_move_construct_def Queue_move_assign_def)

subsection \<open>Moving a guard\<close>

text \<open>
  C9. Move construction from an active \<open>Queue::Guard\<close> gives a guard that is active
  and whose \<open>fd()\<close> is -1, and leaves the source inactive (still holding the
  descriptor); move construction from an active \<open>Condition::Guard\<close> gives an active
  guard with the descriptor of the source.
\<close>

theorem QueueGuard_move_loses_fd:
  assumes "QueueGuard_active g" and "ConditionGuard_active c"
  shows "QueueGuard_active (fst (QueueGuard_move g)) \<and>
         QueueGuard_fd (fst (QueueGuard_move g)) = -1 \<and>
         \<not> QueueGuard_active (snd (QueueGuard_move g)) \<and>
         QueueGuard_fd (snd (QueueGuard_move g)) = QueueGuard_fd g \<and>
         ConditionGuard_active (fst (ConditionGuard_move c)) \<and>
         ConditionGuard_fd (fst (ConditionGuard_move c)) = ConditionGuard_fd c \<and>
         \<not> ConditionGuard_active (snd (ConditionGuard_move c)) \<and>
         ConditionGuard_fd (snd (ConditionGuard_move c)) = -1"
  using assms
  by (simp add: QueueGuard_move_def QueueGuard_active_def QueueGuard_fd_def
      ConditionGuard_move_def ConditionGuard_active_def ConditionGuard_fd_def Let_def)

theorem QueueGuard_move_loses_fd_witness:
  "QueueGuard_active \<lparr>qg_q = Some 1, qg_t = HIGH_WATER_MARK, qg_fd = 7\<rparr> \<and>
   ConditionGuard_active \<lparr>cg_c = Some 2, cg_fd = 8\<rparr> \<and>
   QueueGuard_active (fst (QueueGuard_move \<lparr>qg_q = Some 1, qg_t = HIGH_WATER_MARK, qg_fd = 7\<rparr>)) \<and>
   QueueGuard_fd (fst (QueueGuard_move \<lparr>qg_q = Some 1, qg_t = HIGH_WATER_MARK, qg_fd = 7\<rparr>)) = -1 \<and>
   QueueGuard_fd (snd (QueueGuard_move \<lparr>qg_q = Some 1, qg_t = HIGH_WATER_MARK, qg_fd = 7\<rparr>)) = 7 \<and>
   ConditionGuard_fd (fst (ConditionGuard_move \<lparr>cg_c = Some 2, cg_fd = 8\<rparr>)) = 8"
proof -
  have a: "QueueGuard_active \<lparr>qg_q = Some 1, qg_t = HIGH_WATER_MARK, qg_fd = 7\<rparr>"
    by (simp add: QueueGuard_active_def)
  have b: "ConditionGuard_active \<lparr>cg_c = Some 2, cg_fd = 8\<rparr>"
    by (simp add: ConditionGuard_active_def)
  from QueueGuard_move_loses_fd[OF a b] a b show ?thesis
    by (simp add: QueueGuard_fd_def ConditionGuard_fd_def)
qed

subsection \<open>Waiting for a watermark\<close>

lemma example_empty_new: "Queue_new 3 10 2 4 = Inr example_empty"
  by (simp add: example_empty_def queue_eval)

lemma example_high_eq:
  "example_high =
     \<lparr>q_maxSize = 10, q_lowWaterMark = 2, q_highWaterMark = 4, q_q = [1, 2, 3, 4, 5],
      q_queueState = \<lparr>rwt_fd = 3, rwt_state = READ_WRITE, rwt_value = 1\<rparr>,
      q_highWaterCrossed = True, q_notified = [NOT_EMPTY, HIGH_WATER_MARK]\<rparr>"
  by (simp add: example_high_def example_empty_def queue_eval)

lemma example_low_eq:
  "example_low =
     \<lparr>q_maxSize = 10, q_lowWaterMark = 2, q_highWaterMark = 4, q_q = [4, 5],
      q_queueState = \<lparr>rwt_fd = 3, rwt_state = READ_WRITE, rwt_value = 1\<rparr>,
      q_highWaterCrossed = False,
      q_notified = [NOT_EMPTY, HIGH_WATER_MARK, LOW_WATER_MARK]\<rparr>"
  by (simp add: example_low_def example_high_eq queue_eval)

lemma high_first:
  "waitForInvariant 100 (\<lambda>q. \<not> q_highWaterCrossed q) (0, example_high)
     [\<lparr>notifiedAfter = Some 60, queueAfter = example_low\<rparr>,
      \<lparr>notifiedAfter = None, queueAfter = example_low\<rparr>] =
   Some (True, 60, example_low, [\<lparr>notifiedAfter = None, queueAfter = example_low\<rparr>])"
  by (simp add: waitForInvariant_def condition_wait_def example_high_eq example_low_eq)

lemma high_second:
  "waitForInvariant 100 (\<lambda>q. length (q_q q) > q_highWaterMark q) (60, example_low)
     [\<lparr>notifiedAfter = None, queueAfter = example_low\<rparr>] =
   Some (False, 160, example_low, [])"
  by (simp add: waitForInvariant_def condition_wait_def example_low_eq)

lemma low_first:
  "waitForInvariant 100 (\<lambda>q. q_highWaterCrossed q) (0, example_empty)
     [\<lparr>notifiedAfter = Some 60, queueAfter = example_high\<rparr>,
      \<lparr>notifiedAfter = None, queueAfter = example_high\<rparr>] =
   Some (True, 60, example_high, [\<lparr>notifiedAfter = None, queueAfter = example_high\<rparr>])"
  by (simp add: waitForInvariant_def condition_wait_def example_high_eq example_empty_def)

lemma low_second:
  "waitForInvariant 60 (\<lambda>q. length (q_q q) \<le> q_lowWaterMark q) (60, example_high)
     [\<lparr>notifiedAfter = None, queueAfter = example_high\<rparr>] =
   Some (False, 120, example_high, [])"
  by (simp add: waitForInvariant_def condition_wait_def example_high_eq)


text \<open>
  C2. The two waits of \<open>wait(t, HIGH_WATER_MARK)\<close> and \<open>wait(t, LOW_WATER_MARK)\<close>
  should share one budget of \<open>t\<close> milliseconds. In the code the second wait for the
  high water mark is given \<open>t\<close> again, and the second wait for the low water mark is
  given the time the first one took. With \<open>t = 100\<close>, a first wait that is notified
  after 60 ms and a second one that is never notified, the call for the high water mark
  returns after 160 ms and the call for the low water mark after 120 ms.
\<close>

theorem watermark_waits_exceed_timeout:
  "Queue_wait 100 HIGH_WATER_MARK (0, example_high)
     [\<lparr>notifiedAfter = Some 60, queueAfter = example_low\<rparr>,
      \<lparr>notifiedAfter = None, queueAfter = example_low\<rparr>] =
     Some (False, 160, example_low, []) \<and>
   elapsed 0 (Queue_wait 100 HIGH_WATER_MARK (0, example_high)
     [\<lparr>notifiedAfter = Some 60, queueAfter = example_low\<rparr>,
      \<lparr>notifiedAfter = None, queueAfter = example_low\<rparr>]) = Some 160 \<and>
   Queue_wait 100 LOW_WATER_MARK (0, example_empty)
     [\<lparr>notifiedAfter = Some 60, queueAfter = example_high\<rparr>,
      \<lparr>notifiedAfter = None, queueAfter = example_high\<rparr>] =
     Some (False, 120, example_high, []) \<and>
   elapsed 0 (Queue_wait 100 LOW_WATER_MARK (0, example_empty)
     [\<lparr>notifiedAfter = Some 60, queueAfter = example_high\<rparr>,
      \<lparr>notifiedAfter = None, queueAfter = example_high\<rparr>]) = Some 120"
  by (simp add: waitUntilHighWaterMark_def waitUntilLowWaterMark_def elapsed_def
      high_first high_second low_first low_second)

subsection \<open>The count of an epoll set\<close>

lemma count_inv_new: "EpollSet_new onExec fd = Inr s \<Longrightarrow> count_inv s"
  by (auto simp add: EpollSet_new_def count_inv_def split: sum.splits)

lemma addEvent_returns:
  assumes "addEvent fd events trigger repeat s = (Returns (), s')"
  shows "fd \<notin> dom (es_interest s) \<and>
         s' = s\<lparr>es_interest := (es_interest s)(fd \<mapsto> (events, trigger, repeat))\<rparr>"
proof (cases "fd \<in> dom (es_interest s) \<or> es_fd s < 0 \<or> fd < 0")
  case True
  then have "fst (addEvent fd events trigger repeat s) \<noteq> Returns ()"
    by (auto simp add: addEvent_def epoll_ctl_add_def)
  then show ?thesis using assms by simp
next
  case False
  then have "addEvent fd events trigger repeat s =
      (Returns (), s\<lparr>es_interest := (es_interest s)(fd \<mapsto> (events, trigger, repeat))\<rparr>)"
    by (simp add: addEvent_def epoll_ctl_add_def)
  then show ?thesis using assms False by simp
qed

lemma card_dom_insert:
  assumes "finite (dom m)" "fd \<notin> dom m"
  shows "card (dom (m(fd \<mapsto> v))) = Suc (card (dom m))"
  using assms by simp

lemma count_inv_add:
  assumes "count_inv s" "add fd events trigger repeat s = (Returns (), s')"
  shows "count_inv s'"
proof -
  obtain r s1 where ae: "addEvent fd events trigger repeat s = (r, s1)"
    by (cases "addEvent fd events trigger repeat s")
  with assms(2) have r: "r = Returns ()" and s': "s' = s1\<lparr>es_numFds := es_numFds s1 + 1\<rparr>"
    by (auto simp add: add_def split: outcome.splits)
  from addEvent_returns[OF ae[unfolded r]]
  have none: "fd \<notin> dom (es_interest s)"
    and s1: "s1 = s\<lparr>es_interest := (es_interest s)(fd \<mapsto> (events, trigger, repeat))\<rparr>"
    by simp_all
  from assms(1) have fin: "finite (dom (es_interest s))"
    and n: "es_numFds s = of_nat (card (dom (es_interest s)))"
    by (simp_all add: count_inv_def)
  have "card (dom ((es_interest s)(fd \<mapsto> (events, trigger, repeat)))) =
        Suc (card (dom (es_interest s)))"
    using fin none by (rule card_dom_insert)
  then show ?thesis using fin n by (simp add: s' s1 count_inv_def)
qed

lemma count_inv_modify:
  assumes "count_inv s" "modify fd events trigger repeat s = (Returns (), s')"
  shows "count_inv s'"
proof -
  from assms(2) have reg: "fd \<in> dom (es_interest s)"
    and s': "s' = s\<lparr>es_interest := (es_interest s)(fd \<mapsto> (events, trigger, repeat))\<rparr>"
    by (auto simp add: modify_def epoll_ctl_mod_def split: sum.splits if_splits)
  from reg have "dom ((es_interest s)(fd \<mapsto> (events, trigger, repeat))) = dom (es_interest s)"
    by auto
  then show ?thesis using assms(1) by (simp add: s' count_inv_def)
qed

lemma remove_returns:
  assumes "remove fd s = (Returns (), s')"
  shows "fd \<in> dom (es_interest s) \<and>
         s' = s\<lparr>es_interest := (es_interest s)(fd := None), es_numFds := es_numFds s - 1\<rparr>"
proof (cases "fd \<notin> dom (es_interest s) \<or> es_fd s < 0 \<or> fd < 0")
  case True
  then have "fst (remove fd s) \<noteq> Returns ()"
    by (auto simp add: remove_def epoll_ctl_del_def)
  then show ?thesis using assms by simp
next
  case False
  then have "remove fd s =
      (Returns (), s\<lparr>es_interest := (es_interest s)(fd := None), es_numFds := es_numFds s - 1\<rparr>)"
    by (simp add: remove_def epoll_ctl_del_def)
  then show ?thesis using assms False by simp
qed

lemma count_inv_remove:
  assumes "count_inv s" "remove fd s = (Returns (), s')"
  shows "count_inv s'"
proof -
  from remove_returns[OF assms(2)] have reg: "fd \<in> dom (es_interest s)"
    and s': "s' = s\<lparr>es_interest := (es_interest s)(fd := None), es_numFds := es_numFds s - 1\<rparr>"
    by simp_all
  from assms(1) have fin: "finite (dom (es_interest s))"
    and n: "es_numFds s = of_nat (card (dom (es_interest s)))"
    by (simp_all add: count_inv_def)
  have c: "card (dom (es_interest s)) = Suc (card (dom (es_interest s) - {fd}))"
    using fin reg by (rule card.remove)
  have "es_numFds s = of_nat (card (dom (es_interest s) - {fd})) + 1"
    by (simp only: n c of_nat_Suc add.commute)
  then have m: "es_numFds s - 1 = of_nat (card (dom (es_interest s) - {fd}))"
    by simp
  have d: "dom ((es_interest s)(fd := None)) = dom (es_interest s) - {fd}"
    by simp
  have "finite (dom ((es_interest s)(fd := None)))" using fin by (simp only: d finite_Diff)
  moreover have "es_numFds s - 1 = of_nat (card (dom ((es_interest s)(fd := None))))"
    by (simp only: d m)
  ultimately show ?thesis by (simp add: s' count_inv_def del: dom_fun_upd)
qed

lemma example_set_new:
  "EpollSet_new CLOSE 3 =
     Inr \<lparr>es_onExec = CLOSE, es_fd = 3, es_numFds = 0, es_events = [],
          es_interest = Map.empty\<rparr>"
  by (simp add: EpollSet_new_def createEpollFd_def)

lemma example_set_add:
  "add 5 1 LEVEL REPEATING
     \<lparr>es_onExec = CLOSE, es_fd = 3, es_numFds = 0, es_events = [],
      es_interest = Map.empty\<rparr> =
   (Returns (),
    \<lparr>es_onExec = CLOSE, es_fd = 3, es_numFds = 1, es_events = [],
     es_interest = [5 \<mapsto> (1, LEVEL, REPEATING)]\<rparr>)"
  by (simp add: add_def addEvent_def epoll_ctl_add_def)

lemma example_set_clear:
  "clear_set 4
     \<lparr>es_onExec = CLOSE, es_fd = 3, es_numFds = 1, es_events = [],
      es_interest = [5 \<mapsto> (1, LEVEL, REPEATING)]\<rparr> =
   (Returns (),
    \<lparr>es_onExec = CLOSE, es_fd = 4, es_numFds = 1, es_events = [],
     es_interest = Map.empty\<rparr>)"
  by (simp add: clear_set_def createEpollFd_def)

text \<open>
  C5. \<open>numTargets()\<close> should be the number of registered descriptors. Successful
  \<open>add\<close>, \<open>modify\<close> and \<open>remove\<close> keep it so (\<open>count_inv_add\<close>,
  \<open>count_inv_modify\<close>, \<open>count_inv_remove\<close>); \<open>clear\<close> replaces the epoll instance
  and leaves \<open>numFds_\<close> as it was. After one \<open>add\<close> and a \<open>clear\<close> nothing is
  registered and \<open>numTargets()\<close> is 1.
\<close>

theorem numTargets_not_reset_by_clear:
  "(case EpollSet_new CLOSE 3 of
      Inl e \<Rightarrow> False
    | Inr s0 \<Rightarrow>
        (let s1 = snd (add 5 1 LEVEL REPEATING s0);
             s2 = snd (clear_set 4 s1)
         in fst (add 5 1 LEVEL REPEATING s0) = Returns () \<and>
            numTargets s1 = 1 \<and> dom (es_interest s1) = {5} \<and>
            fst (clear_set 4 s1) = Returns () \<and>
            dom (es_interest s2) = {} \<and> numTargets s2 = 1))"
  by (simp add: example_set_new example_set_add example_set_clear numTargets_def)

subsection \<open>Acknowledging a notification\<close>

lemma count_list_butlast:
  "xs \<noteq> [] \<Longrightarrow> count_list xs s = count_list (butlast xs) s + (if last xs = s then 1 else 0)"
  by (induction xs) auto

lemma sum_inv_push:
  assumes "sum_inv c" "s \<notin> set (cv_queue c)"
  shows "sum_inv (c\<lparr>cv_sems := (cv_sems c)(s := 0), cv_queue := cv_queue c @ [s]\<rparr>)"
  using assms by (auto simp add: sum_inv_def count_list_0_iff)

lemma sum_inv_pop:
  assumes "sum_inv c" "cv_queue c \<noteq> []"
  shows "cv_sems c (last (cv_queue c)) = 0"
    and "sum_inv (c\<lparr>cv_sems := (cv_sems c)(last (cv_queue c) := cv_sems c (last (cv_queue c)) + 1),
                    cv_queue := butlast (cv_queue c)\<rparr>)"
proof -
  let ?s = "last (cv_queue c)"
  have le: "cv_sems c t + count_list (cv_queue c) t \<le> 1" for t
    using assms(1) by (simp add: sum_inv_def)
  have cnt: "count_list (cv_queue c) t = count_list (butlast (cv_queue c)) t + (if ?s = t then 1 else 0)" for t
    using count_list_butlast[OF assms(2)] .
  show z: "cv_sems c ?s = 0" using le[of ?s] cnt[of ?s] by simp
  show "sum_inv (c\<lparr>cv_sems := (cv_sems c)(?s := cv_sems c ?s + 1), cv_queue := butlast (cv_queue c)\<rparr>)"
    unfolding sum_inv_def
  proof
    fix t
    show "cv_sems (c\<lparr>cv_sems := (cv_sems c)(?s := cv_sems c ?s + 1), cv_queue := butlast (cv_queue c)\<rparr>) t +
          count_list (cv_queue (c\<lparr>cv_sems := (cv_sems c)(?s := cv_sems c ?s + 1), cv_queue := butlast (cv_queue c)\<rparr>)) t \<le> 1"
      using le[of t] cnt[of t] by (cases "?s = t") simp_all
  qed
qed

lemma sum_inv_notifyOne:
  assumes "sum_inv c"
  shows "fst (notifyOne c) = Returns () \<and> sum_inv (snd (notifyOne c))"
proof (cases "cv_queue c = []")
  case True
  then show ?thesis using assms by (simp add: notifyOne_def)
next
  case False
  from sum_inv_pop[OF assms False] show ?thesis
    using False by (simp add: notifyOne_def Let_def EVENTFD_MAX_def)
qed

lemma sum_inv_notifyAll:
  "sum_inv c \<Longrightarrow> fst (notifyAll c) = Returns () \<and> sum_inv (snd (notifyAll c))"
proof (induction c rule: notifyAll.induct)
  case (1 c)
  show ?case
  proof (cases "cv_queue c = []")
    case True
    then show ?thesis using "1.prems" by (simp add: notifyAll.simps[of c])
  next
    case False
    let ?s = "last (cv_queue c)"
    let ?c' = "c\<lparr>cv_sems := (cv_sems c)(?s := cv_sems c ?s + 1), cv_queue := butlast (cv_queue c)\<rparr>"
    from sum_inv_pop[OF "1.prems" False]
    have z: "cv_sems c ?s = 0" and inv': "sum_inv ?c'" by simp_all
    have nb: "\<not> cv_sems c ?s + 1 > EVENTFD_MAX" using z by (simp add: EVENTFD_MAX_def)
    have "fst (notifyAll ?c') = Returns () \<and> sum_inv (snd (notifyAll ?c'))"
      using "1.IH"[OF False refl nb inv'] .
    moreover have "notifyAll c = notifyAll ?c'"
      using False nb by (subst notifyAll.simps) (simp add: Let_def)
    ultimately show ?thesis by simp
  qed
qed

lemma sum_inv_ack: "sum_inv c \<Longrightarrow> sum_inv (snd (ack fd c))"
proof -
  assume inv: "sum_inv c"
  have le: "cv_sems c t + count_list (cv_queue c) t \<le> 1" for t
    using inv by (simp add: sum_inv_def)
  show ?thesis
  proof (cases "fd \<in> cv_observers c \<and> cv_sems c fd \<noteq> 0")
    case False
    then show ?thesis using inv by (auto simp add: ack_def lookup_def)
  next
    case True
    then have "snd (ack fd c) =
        c\<lparr>cv_sems := (cv_sems c)(fd := cv_sems c fd - 1), cv_queue := cv_queue c @ [fd]\<rparr>"
      by (simp add: ack_def lookup_def Let_def)
    moreover have "sum_inv (c\<lparr>cv_sems := (cv_sems c)(fd := cv_sems c fd - 1), cv_queue := cv_queue c @ [fd]\<rparr>)"
      unfolding sum_inv_def
    proof
      fix t
      show "cv_sems (c\<lparr>cv_sems := (cv_sems c)(fd := cv_sems c fd - 1), cv_queue := cv_queue c @ [fd]\<rparr>) t +
            count_list (cv_queue (c\<lparr>cv_sems := (cv_sems c)(fd := cv_sems c fd - 1), cv_queue := cv_queue c @ [fd]\<rparr>)) t \<le> 1"
        using le[of t] True by (cases "fd = t") simp_all
    qed
    ultimately show ?thesis by simp
  qed
qed

lemma sum_inv_wait_down: "sum_inv c \<Longrightarrow> sum_inv (snd (wait_down timeout s c))"
proof -
  assume inv: "sum_inv c"
  have le: "cv_sems c t + count_list (cv_queue c) t \<le> 1" for t
    using inv by (simp add: sum_inv_def)
  have "cv_sems (snd (wait_down timeout s c)) t + count_list (cv_queue (snd (wait_down timeout s c))) t \<le> 1" for t
    using le[of t] by (auto simp add: wait_down_def)
  then show ?thesis by (simp add: sum_inv_def)
qed

lemma sum_inv_step:
  assumes "sum_inv c" "cv_step op c = Some c'"
  shows "sum_inv c'"
proof (cases op)
  case (Observe s)
  then have u: "unused s c" and c': "c' = snd (observe s c)"
    using assms(2) by (simp_all split: if_splits)
  from u have "s \<notin> set (cv_queue c)" by (simp add: unused_def)
  from sum_inv_push[OF assms(1) this] assms(1) show ?thesis
    by (simp add: c' observe_def Let_def sum_inv_def)
next
  case (Ack fd)
  then show ?thesis using assms sum_inv_ack[of c fd] by simp
next
  case (StopObserving fd)
  then show ?thesis using assms by (auto simp add: stopObserving_def lookup_def sum_inv_def)
next
  case NotifyOne
  then show ?thesis using assms sum_inv_notifyOne[of c]
    by (cases "notifyOne c") (auto split: outcome.splits)
next
  case NotifyAll
  then show ?thesis using assms sum_inv_notifyAll[of c]
    by (cases "notifyAll c") (auto split: outcome.splits)
next
  case (WaitEnqueue s)
  then have u: "unused s c" and c': "c' = snd (wait_enqueue s c)"
    using assms(2) by (simp_all split: if_splits)
  from u have "s \<notin> set (cv_queue c)" by (simp add: unused_def)
  from sum_inv_push[OF assms(1) this] assms(1) show ?thesis
    by (simp add: c' wait_enqueue_def Let_def)
next
  case (WaitDown timeout s)
  then show ?thesis using assms sum_inv_wait_down[of c timeout s] by simp
qed

lemma sum_inv_run: "sum_inv c \<Longrightarrow> cv_run ops c = Some c' \<Longrightarrow> sum_inv c'"
proof (induction ops arbitrary: c)
  case Nil
  then show ?case by simp
next
  case (Cons op ops)
  then show ?case by (auto split: option.splits dest: sum_inv_step)
qed

lemma sum_inv_new: "sum_inv Condition_new"
  by (simp add: sum_inv_def Condition_new_def)


text \<open>
  C6. In every state a condition reaches from its construction: \<open>ack\<close> of a
  descriptor that is not in the observer table throws \<open>NoSuchItem\<close> and leaves the
  condition as it was; \<open>ack\<close> of an observer's descriptor that is readable returns,
  leaves the descriptor not readable, appends the handle to the notification queue and
  leaves the observer table as it was.
\<close>

theorem ack_unknown_fd_fails_signaled_fd_rearms:
  assumes "cv_run ops Condition_new = Some c"
  shows "(fd \<notin> cv_observers c \<longrightarrow> ack fd c = (Throws NoSuchItem, c)) \<and>
         (fd \<in> cv_observers c \<and> readable c fd \<longrightarrow>
            fst (ack fd c) = Returns () \<and> \<not> readable (snd (ack fd c)) fd \<and>
            cv_queue (snd (ack fd c)) = cv_queue c @ [fd] \<and>
            cv_observers (snd (ack fd c)) = cv_observers c)"
proof -
  have "sum_inv c" using sum_inv_new assms by (rule sum_inv_run)
  then have "cv_sems c fd \<le> 1" using le_add1 le_trans unfolding sum_inv_def by blast
  then show ?thesis
    by (auto simp add: ack_def lookup_def readable_def Let_def)
qed


text \<open>
  The theorem after two \<open>observe\<close>, \<open>stopObserving\<close> of the second descriptor and
  \<open>notifyAll\<close>.
\<close>

theorem ack_unknown_fd_fails_signaled_fd_rearms_witness:
  "cv_run [Observe 5, Observe 6, StopObserving 6, NotifyAll] Condition_new =
     Some \<lparr>cv_queue = [], cv_observers = {5}, cv_sems = (\<lambda>s. 0)(6 := 1, 5 := 1)\<rparr> \<and>
   ack 6 \<lparr>cv_queue = [], cv_observers = {5}, cv_sems = (\<lambda>s. 0)(6 := 1, 5 := 1)\<rparr> =
     (Throws NoSuchItem, \<lparr>cv_queue = [], cv_observers = {5}, cv_sems = (\<lambda>s. 0)(6 := 1, 5 := 1)\<rparr>) \<and>
   readable \<lparr>cv_queue = [], cv_observers = {5}, cv_sems = (\<lambda>s. 0)(6 := 1, 5 := 1)\<rparr> 5 \<and>
   fst (ack 5 \<lparr>cv_queue = [], cv_observers = {5}, cv_sems = (\<lambda>s. 0)(6 := 1, 5 := 1)\<rparr>) =
     Returns () \<and>
   \<not> readable
     (snd (ack 5 \<lparr>cv_queue = [], cv_observers = {5}, cv_sems = (\<lambda>s. 0)(6 := 1, 5 := 1)\<rparr>)) 5 \<and>
   cv_queue
     (snd (ack 5 \<lparr>cv_queue = [], cv_observers = {5}, cv_sems = (\<lambda>s. 0)(6 := 1, 5 := 1)\<rparr>)) =
     [5]"
proof -
  let ?c = "\<lparr>cv_queue = [], cv_observers = {5}, cv_sems = (\<lambda>s. 0)(6 := 1, 5 := (1::nat))\<rparr>"
  have run: "cv_run [Observe 5, Observe 6, StopObserving 6, NotifyAll] Condition_new = Some ?c"
    by (simp add: Condition_new_def unused_def observe_def stopObserving_def lookup_def
        notifyAll.simps EVENTFD_MAX_def Let_def fun_upd_twist)
  have r: "readable ?c 5" by (simp add: readable_def)
  from ack_unknown_fd_fails_signaled_fd_rearms[OF run, of 6]
       ack_unknown_fd_fails_signaled_fd_rearms[OF run, of 5] run r
  show ?thesis by simp
qed


subsection \<open>The toggle's descriptor\<close>

text \<open>
  C7. \<open>createEventFd\<close> should return the descriptor when \<open>eventfd\<close> succeeds. The
  function of ReadWriteToggle.cpp has no \<open>return\<close> statement: with descriptor 5 it
  reaches its end without a value, and so does the constructor that initialises
  \<open>fd_\<close> from it. It throws when \<open>eventfd\<close> fails, and the function of the same
  name in Semaphore.cpp returns the descriptor.
\<close>

theorem createEventFd_reaches_end_without_return:
  "createEventFd CLOSE 5 = ReachesEnd \<and> createEventFd CLOSE 5 \<noteq> ReturnsValue 5 \<and>
   ReadWriteToggle_new CLOSE 5 = ReachesEnd \<and>
   createEventFd CLOSE (-1) = ThrowsError SystemError \<and>
   Semaphore_createEventFd 0 CLOSE 5 = ReturnsValue 5"
  by (simp add: createEventFd_def ReadWriteToggle_new_def Semaphore_createEventFd_def)


lemma createEventFd_never_returns: "createEventFd onExec fd \<noteq> ReturnsValue v"
  by (simp add: createEventFd_def)


subsection \<open>A wait that times out\<close>

lemma notifyOne_sum:
  assumes "fst (notifyOne c) \<noteq> Blocks"
  shows "cv_sems (snd (notifyOne c)) t + count_list (cv_queue (snd (notifyOne c))) t =
         cv_sems c t + count_list (cv_queue c) t \<and>
         cv_observers (snd (notifyOne c)) = cv_observers c"
proof (cases "cv_queue c = []")
  case True
  then show ?thesis by (simp add: notifyOne_def)
next
  case False
  from count_list_butlast[OF False, of t] assms False show ?thesis
    by (auto simp add: notifyOne_def Let_def split: if_splits)
qed

lemma notifyAll_sum:
  "fst (notifyAll c) \<noteq> Blocks \<Longrightarrow>
   cv_sems (snd (notifyAll c)) t + count_list (cv_queue (snd (notifyAll c))) t =
   cv_sems c t + count_list (cv_queue c) t \<and>
   cv_observers (snd (notifyAll c)) = cv_observers c"
proof (induction c rule: notifyAll.induct)
  case (1 c)
  show ?case
  proof (cases "cv_queue c = []")
    case True
    then show ?thesis by (simp add: notifyAll.simps[of c])
  next
    case False
    let ?s = "last (cv_queue c)"
    let ?c' = "c\<lparr>cv_sems := (cv_sems c)(?s := cv_sems c ?s + 1), cv_queue := butlast (cv_queue c)\<rparr>"
    have nb: "\<not> cv_sems c ?s + 1 > EVENTFD_MAX"
      using "1.prems" False by (subst (asm) notifyAll.simps) (auto simp add: Let_def split: if_splits)
    have eq: "notifyAll c = notifyAll ?c'"
      using False nb by (subst notifyAll.simps) (simp add: Let_def)
    then have "fst (notifyAll ?c') \<noteq> Blocks" using "1.prems" by simp
    from "1.IH"[OF False refl nb this] count_list_butlast[OF False, of t] eq
    show ?thesis by auto
  qed
qed

lemma armed_step:
  assumes "armed s c" "\<not> uses_handle s op" "cv_step op c = Some c'"
  shows "armed s c'"
proof (cases op)
  case (Observe s')
  then show ?thesis using assms
    by (auto simp add: armed_def observe_def Let_def split: if_splits)
next
  case (Ack fd)
  then show ?thesis using assms
    by (auto simp add: armed_def ack_def lookup_def Let_def split: if_splits)
next
  case (StopObserving fd)
  then show ?thesis using assms
    by (auto simp add: armed_def stopObserving_def lookup_def split: if_splits)
next
  case NotifyOne
  then have nb: "fst (notifyOne c) \<noteq> Blocks" and c': "c' = snd (notifyOne c)"
    using assms(3) by (cases "notifyOne c"; auto split: outcome.splits)+
  from notifyOne_sum[OF nb, of s] assms(1) show ?thesis by (simp add: armed_def c')
next
  case NotifyAll
  then have nb: "fst (notifyAll c) \<noteq> Blocks" and c': "c' = snd (notifyAll c)"
    using assms(3) by (cases "notifyAll c"; auto split: outcome.splits)+
  from notifyAll_sum[OF nb, of s] assms(1) show ?thesis by (simp add: armed_def c')
next
  case (WaitEnqueue s')
  then show ?thesis using assms
    by (auto simp add: armed_def wait_enqueue_def Let_def split: if_splits)
next
  case (WaitDown timeout s')
  then show ?thesis using assms
    by (auto simp add: armed_def wait_down_def split: if_splits)
qed

lemma armed_run:
  "armed s c \<Longrightarrow> list_all (\<lambda>op. \<not> uses_handle s op) ops \<Longrightarrow> cv_run ops c = Some c' \<Longrightarrow>
   armed s c'"
proof (induction ops arbitrary: c)
  case Nil
  then show ?case by simp
next
  case (Cons op ops)
  then show ?case by (auto split: option.splits dest: armed_step)
qed

lemma armed_wait_enqueue:
  "unused s c \<Longrightarrow> 0 \<le> s \<Longrightarrow> armed s (snd (wait_enqueue s c))"
  by (simp add: armed_def unused_def wait_enqueue_def Let_def count_list_0_iff)


text \<open>
  C10. A thread calls \<open>wait(timeout)\<close> on any condition: its new semaphore \<open>s\<close> is
  pushed, other threads act on the condition (none of them creates or waits on \<open>s\<close>),
  and \<open>down(timeout)\<close> returns false. Then the handle is still in the queue, not
  readable and not an observer's; and if it is the last handle of the queue, \<open>notifyOne\<close>
  pops it and makes it readable, and changes no other semaphore: no other waiter's and
  no observer's descriptor becomes readable. With no other thread acting in between,
  \<open>wait(timeout)\<close> returns false and leaves the handle at the back of the queue.
\<close>

theorem timed_out_wait_leaves_stale_handle:
  assumes fresh: "unused s c" and fd: "0 \<le> s"
    and others: "list_all (\<lambda>op. \<not> uses_handle s op) ops"
    and run: "cv_run ops (snd (wait_enqueue s c)) = Some c'"
    and timed_out: "fst (wait_down timeout s c') = Returns False"
  shows "Condition_wait timeout s c = (Returns False, snd (wait_enqueue s c)) \<and>
         cv_queue (snd (wait_enqueue s c)) = cv_queue c @ [s] \<and>
         snd (wait_down timeout s c') = c' \<and> s \<in> set (cv_queue c') \<and>
         \<not> readable c' s \<and> s \<notin> cv_observers c' \<and>
         (last (cv_queue c') = s \<longrightarrow>
            fst (notifyOne c') = Returns () \<and>
            cv_queue (snd (notifyOne c')) = butlast (cv_queue c') \<and>
            cv_observers (snd (notifyOne c')) = cv_observers c' \<and>
            readable (snd (notifyOne c')) s \<and>
            (\<forall>f. f \<noteq> s \<longrightarrow> cv_sems (snd (notifyOne c')) f = cv_sems c' f))"
proof -
  have a: "armed s c'"
    using armed_wait_enqueue[OF fresh fd] others run by (rule armed_run)
  have z: "cv_sems c' s = 0" and same: "snd (wait_down timeout s c') = c'"
    and t: "0 \<le> timeout"
    using timed_out by (auto simp add: wait_down_def split: if_splits)
  have w: "Condition_wait timeout s c = (Returns False, snd (wait_enqueue s c))"
    using fd t by (simp add: Condition_wait_def wait_enqueue_def wait_down_def Let_def)
  have q: "cv_queue (snd (wait_enqueue s c)) = cv_queue c @ [s]"
    using fd by (simp add: wait_enqueue_def Let_def)
  from a z have "count_list (cv_queue c') s = 1" by (simp add: armed_def)
  then have mem: "s \<in> set (cv_queue c')" using count_list_0_iff[of "cv_queue c'" s] by force
  then have ne: "cv_queue c' \<noteq> []" by auto
  have obs: "s \<notin> cv_observers c'" using a by (simp add: armed_def)
  have pop: "last (cv_queue c') = s \<longrightarrow>
            fst (notifyOne c') = Returns () \<and>
            cv_queue (snd (notifyOne c')) = butlast (cv_queue c') \<and>
            cv_observers (snd (notifyOne c')) = cv_observers c' \<and>
            readable (snd (notifyOne c')) s \<and>
            (\<forall>f. f \<noteq> s \<longrightarrow> cv_sems (snd (notifyOne c')) f = cv_sems c' f)"
    using ne z by (simp add: notifyOne_def Let_def EVENTFD_MAX_def readable_def)
  show ?thesis using w q same mem z obs pop by (simp add: readable_def)
qed


text \<open>
  The theorem for a condition with one armed observer (descriptor 5), the waiter's
  semaphore 6, and another thread that observes (descriptor 7) and is notified before
  the wait times out.
\<close>

theorem timed_out_wait_leaves_stale_handle_witness:
  "unused 6 \<lparr>cv_queue = [5], cv_observers = {5}, cv_sems = (\<lambda>s. 0)\<rparr> \<and>
   list_all (\<lambda>op. \<not> uses_handle 6 op) [Observe 7, NotifyOne] \<and>
   cv_run [Observe 7, NotifyOne]
     (snd (wait_enqueue 6 \<lparr>cv_queue = [5], cv_observers = {5}, cv_sems = (\<lambda>s. 0)\<rparr>)) =
     Some \<lparr>cv_queue = [5, 6], cv_observers = {7, 5}, cv_sems = (\<lambda>s. 0)(6 := 0, 7 := 1)\<rparr> \<and>
   wait_down 10 6 \<lparr>cv_queue = [5, 6], cv_observers = {7, 5}, cv_sems = (\<lambda>s. 0)(6 := 0, 7 := 1)\<rparr> =
     (Returns False,
      \<lparr>cv_queue = [5, 6], cv_observers = {7, 5}, cv_sems = (\<lambda>s. 0)(6 := 0, 7 := 1)\<rparr>) \<and>
   Condition_wait 10 6 \<lparr>cv_queue = [5], cv_observers = {5}, cv_sems = (\<lambda>s. 0)\<rparr> =
     (Returns False, \<lparr>cv_queue = [5, 6], cv_observers = {5}, cv_sems = (\<lambda>s. 0)(6 := 0)\<rparr>) \<and>
   cv_queue (snd (notifyOne
     \<lparr>cv_queue = [5, 6], cv_observers = {7, 5}, cv_sems = (\<lambda>s. 0)(6 := 0, 7 := 1)\<rparr>)) = [5] \<and>
   readable (snd (notifyOne
     \<lparr>cv_queue = [5, 6], cv_observers = {7, 5}, cv_sems = (\<lambda>s. 0)(6 := 0, 7 := 1)\<rparr>)) 6 \<and>
   \<not> readable (snd (notifyOne
     \<lparr>cv_queue = [5, 6], cv_observers = {7, 5}, cv_sems = (\<lambda>s. 0)(6 := 0, 7 := 1)\<rparr>)) 5"
proof -
  let ?c = "\<lparr>cv_queue = [5], cv_observers = {5}, cv_sems = (\<lambda>s. 0::nat)\<rparr>"
  let ?c' = "\<lparr>cv_queue = [5, 6], cv_observers = {7, 5}, cv_sems = (\<lambda>s. 0::nat)(6 := 0, 7 := 1)\<rparr>"
  have fresh: "unused 6 ?c" by (simp add: unused_def)
  have others: "list_all (\<lambda>op. \<not> uses_handle 6 op) [Observe 7, NotifyOne]" by simp
  have run: "cv_run [Observe 7, NotifyOne] (snd (wait_enqueue 6 ?c)) = Some ?c'"
    by (simp add: wait_enqueue_def unused_def observe_def notifyOne_def EVENTFD_MAX_def Let_def)
  have down: "wait_down 10 6 ?c' = (Returns False, ?c')" by (simp add: wait_down_def)
  then have timed_out: "fst (wait_down 10 6 ?c') = Returns False" by simp
  have enq: "snd (wait_enqueue 6 ?c) =
      \<lparr>cv_queue = [5, 6], cv_observers = {5}, cv_sems = (\<lambda>s. 0)(6 := 0)\<rparr>"
    by (simp add: wait_enqueue_def Let_def)
  have five: "cv_sems ?c' 5 = 0" by simp
  note T = timed_out_wait_leaves_stale_handle[OF fresh _ others run timed_out]
  from T fresh others run down enq five show ?thesis by (simp add: readable_def)
qed

end
